theory Spec2Isabelle
  imports Main "HOL-Library.Multiset" "HOL-Library.Word"
begin

section \<open>Errors\<close>

text \<open>
  The exceptions of \<^verbatim>\<open>torrent/exceptions.h\<close> that the modelled functions throw. Each
  carries the message it is constructed with. A \<open>storage_error\<close> of
  \<^verbatim>\<open>load_up_chunk\<close>/\<^verbatim>\<open>load_down_chunk\<close> is built from a fixed prefix and the text of a
  chunk handle's \<^verbatim>\<open>error_number()\<close>; the model keeps the prefix and the error number
  apart, so that one can see whose error number went into the message.
\<close>

datatype error =
    internal_error string
  | communication_error string
  | storage_error string int
  | input_error string

section \<open>Peer connection (\<^verbatim>\<open>PeerConnectionBase\<close>)\<close>

subsection \<open>Data\<close>

text \<open>
  A \<^verbatim>\<open>Piece\<close> is the triple (index, offset, length) of unsigned 32-bit values. The modelled
  functions only compare these values (no arithmetic), so they are natural numbers.
\<close>

record piece =
  get_index :: nat
  get_offset :: nat
  get_length :: nat

text \<open>
  A \<^verbatim>\<open>ChunkHandle\<close>: whether it holds a chunk (\<^verbatim>\<open>is_valid()\<close>), the index of that chunk,
  and the error number left by the \<^verbatim>\<open>ChunkList::get\<close> that produced it.
\<close>

record chunk_handle =
  is_valid :: bool
  chunk_index :: nat
  error_number :: int

text \<open>
  What a peer connection reads from its \<^verbatim>\<open>DownloadMain\<close>: the endgame flag, the aggregate
  download rate, the content's piece checks and the chunk list's \<^verbatim>\<open>get(index, writable)\<close>.
  These collaborators are outside the modelled code, so they are parameters.
\<close>

record download_main =
  get_endgame :: bool
  down_rate :: nat
  is_valid_piece :: "piece \<Rightarrow> bool"
  has_chunk :: "nat \<Rightarrow> bool"
  chunk_list_get :: "nat \<Rightarrow> bool \<Rightarrow> chunk_handle"

text \<open>
  Calls that a peer connection makes on its collaborators (choke manager, poller,
  chunk list, write protocol), recorded in the order they are made.
\<close>

datatype call =
    choke_set_interested
  | choke_set_not_interested
  | write_insert_poll_safe
  | chunk_list_release chunk_handle
  | up_write_piece piece

text \<open>
  The members of \<^verbatim>\<open>PeerConnectionBase\<close> that the modelled functions touch.
  \<open>down_choked\<close>/\<open>down_interested\<close> are \<^verbatim>\<open>m_down->choked()\<close> (the remote chokes us) and
  \<^verbatim>\<open>m_down->interested()\<close> (the remote is interested); \<open>up_choked\<close>/\<open>up_interested\<close> are
  \<^verbatim>\<open>m_up->choked()\<close> (we choke the remote) and \<^verbatim>\<open>m_up->interested()\<close> (we are
  interested).
\<close>

record peer_connection =
  down_choked :: bool
  down_interested :: bool
  up_choked :: bool
  up_interested :: bool
  m_downStall :: nat
  m_sendChoked :: bool
  m_snubbed :: bool
  m_timeLastChoked :: nat
  m_sendList :: "piece list"
  m_upPiece :: piece
  m_downPiece :: piece
  m_upChunk :: chunk_handle
  m_downChunk :: chunk_handle
  calls :: "call list"

definition do_call :: "call \<Rightarrow> peer_connection \<Rightarrow> peer_connection" where
  "do_call c s = s\<lparr>calls := calls s @ [c]\<rparr>"

subsection \<open>Operations\<close>

text \<open>
  \<^verbatim>\<open>should_request()\<close>: \<^verbatim>\<open>10 << 10\<close> is 10240.
\<close>

definition should_request :: "download_main \<Rightarrow> peer_connection \<Rightarrow> bool" where
  "should_request d s =
     (if down_choked s \<or> \<not> up_interested s then False
      else if \<not> get_endgame d then True
      else m_downStall s \<le> 1 \<or> down_rate d < 10 * 2 ^ 10)"

text \<open>
  \<^verbatim>\<open>receive_choke(v)\<close>; \<open>now\<close> is the global \<^verbatim>\<open>cachedTime\<close>.
\<close>

definition receive_choke :: "nat \<Rightarrow> bool \<Rightarrow> peer_connection \<Rightarrow> error + peer_connection" where
  "receive_choke now v s =
     (if v = up_choked s
      then Inl (internal_error ''PeerConnectionBase::receive_choke(...) already set to the same state.'')
      else Inr ((do_call write_insert_poll_safe s)
                  \<lparr>m_sendChoked := True, up_choked := v, m_timeLastChoked := now\<rparr>))"

text \<open>
  Modelled from the spec: \<^verbatim>\<open>is_upload_wanted()\<close> is declared in
  \<^verbatim>\<open>peer_connection_base.h\<close>, which is not among the sources. The spec makes the snub flag
  "an external flag that suppresses our interest without dropping the connection" and has
  the choke manager rank the "interested, non-snubbed peers": an upload is wanted by a
  remote that is interested and not snubbed.
\<close>

definition is_upload_wanted :: "peer_connection \<Rightarrow> bool" where
  "is_upload_wanted s = (down_interested s \<and> \<not> m_snubbed s)"

definition set_snubbed :: "bool \<Rightarrow> peer_connection \<Rightarrow> peer_connection" where
  "set_snubbed v s =
     (if v = m_snubbed s then s
      else
        let wasUploadWanted = is_upload_wanted s;
            s1 = s\<lparr>m_snubbed := v\<rparr>
        in if v then (if wasUploadWanted then do_call choke_set_not_interested s1 else s1)
           else (if is_upload_wanted s1 then do_call choke_set_interested s1 else s1))"

text \<open>
  \<^verbatim>\<open>up_chunk_release()\<close> and \<^verbatim>\<open>down_chunk_release()\<close>: a valid handle is given back to the
  chunk list and cleared.
\<close>

definition up_chunk_release :: "peer_connection \<Rightarrow> peer_connection" where
  "up_chunk_release s =
     (if is_valid (m_upChunk s)
      then (do_call (chunk_list_release (m_upChunk s)) s)
             \<lparr>m_upChunk := (m_upChunk s)\<lparr>is_valid := False\<rparr>\<rparr>
      else s)"

definition down_chunk_release :: "peer_connection \<Rightarrow> peer_connection" where
  "down_chunk_release s =
     (if is_valid (m_downChunk s)
      then (do_call (chunk_list_release (m_downChunk s)) s)
             \<lparr>m_downChunk := (m_downChunk s)\<lparr>is_valid := False\<rparr>\<rparr>
      else s)"

definition load_down_chunk :: "download_main \<Rightarrow> piece \<Rightarrow> peer_connection \<Rightarrow> error + peer_connection" where
  "load_down_chunk d p s =
     (let s1 = s\<lparr>m_downPiece := p\<rparr> in
      if \<not> is_valid_piece d p
      then Inl (internal_error ''Incoming pieces list contains a bad piece'')
      else if is_valid (m_downChunk s1) \<and> get_index p = chunk_index (m_downChunk s1)
      then Inr s1
      else
        let s2 = down_chunk_release s1;
            s3 = s2\<lparr>m_downChunk := chunk_list_get d (get_index p) True\<rparr>
        in if \<not> is_valid (m_downChunk s3)
           then Inl (storage_error ''File chunk write error: '' (error_number (m_downChunk s3)))
           else Inr s3)"

definition load_up_chunk :: "download_main \<Rightarrow> peer_connection \<Rightarrow> error + peer_connection" where
  "load_up_chunk d s =
     (if is_valid (m_upChunk s) \<and> chunk_index (m_upChunk s) = get_index (m_upPiece s)
      then Inr s
      else
        let s1 = up_chunk_release s;
            s2 = s1\<lparr>m_upChunk := chunk_list_get d (get_index (m_upPiece s1)) False\<rparr>
        in if \<not> is_valid (m_upChunk s2)
           then Inl (storage_error ''File chunk read error: '' (error_number (m_downChunk s2)))
           else Inr s2)"

text \<open>
  \<^verbatim>\<open>read_request_piece(p)\<close> handles a request message of the remote. It has no
  \<^verbatim>\<open>throw\<close>; its result type is a sum all the same, so that "the request is rejected
  with an error" can be stated about it. \<^verbatim>\<open>1 << 17\<close> is 131072.
\<close>

definition read_request_piece :: "piece \<Rightarrow> peer_connection \<Rightarrow> error + peer_connection" where
  "read_request_piece p s =
     (if up_choked s \<or> p \<in> set (m_sendList s) \<or> get_length p > 2 ^ 17
      then Inr s
      else Inr (do_call write_insert_poll_safe (s\<lparr>m_sendList := m_sendList s @ [p]\<rparr>)))"

text \<open>
  \<^verbatim>\<open>write_prepare_piece()\<close> takes the head of the send list. The source calls
  \<^verbatim>\<open>front()\<close> without a check; its caller only runs it on a non-empty list, and the model
  has no result (\<open>None\<close>) on an empty one. When the function throws, the result is the
  exception alone.
\<close>

definition write_prepare_piece :: "download_main \<Rightarrow> peer_connection \<Rightarrow> (error + peer_connection) option" where
  "write_prepare_piece d s =
     (case m_sendList s of
        [] \<Rightarrow> None
      | p # rest \<Rightarrow>
          let s1 = s\<lparr>m_upPiece := p, m_sendList := rest\<rparr> in
          if \<not> is_valid_piece d (m_upPiece s1) \<or> \<not> has_chunk d (get_index (m_upPiece s1))
          then Some (Inl (communication_error ''Peer requested a piece with invalid index or length/offset.''))
          else Some (Inr (do_call (up_write_piece (m_upPiece s1)) s1)))"

subsection \<open>Concrete inputs\<close>

definition no_chunk :: chunk_handle where
  "no_chunk = \<lparr>is_valid = False, chunk_index = 0, error_number = 0\<rparr>"

definition piece0 :: piece where
  "piece0 = \<lparr>get_index = 0, get_offset = 0, get_length = 16384\<rparr>"

definition peer0 :: peer_connection where
  "peer0 = \<lparr>down_choked = False, down_interested = False, up_choked = False,
            up_interested = True, m_downStall = 0, m_sendChoked = False, m_snubbed = False,
            m_timeLastChoked = 0, m_sendList = [], m_upPiece = piece0, m_downPiece = piece0,
            m_upChunk = no_chunk, m_downChunk = no_chunk, calls = []\<rparr>"

definition download0 :: download_main where
  "download0 = \<lparr>get_endgame = True, down_rate = 20000,
                is_valid_piece = (\<lambda>p. get_index p < 4 \<and> get_offset p + get_length p \<le> 262144),
                has_chunk = (\<lambda>i. i = 0),
                chunk_list_get = (\<lambda>i w. \<lparr>is_valid = False, chunk_index = 0, error_number = 13\<rparr>)\<rparr>"

section \<open>Tracker list (\<^verbatim>\<open>TrackerList\<close>)\<close>

subsection \<open>Data\<close>

text \<open>
  A \<^verbatim>\<open>TrackerList\<close> is a vector of pointers to \<^verbatim>\<open>tracker::Tracker\<close> objects, which are
  read and written through the pointers. The model has the vector as a list of addresses
  and an explicit store from addresses to tracker objects.

  Of a tracker the model keeps the group, the url, the kind of worker and its flags, and
  the members of its \<^verbatim>\<open>TrackerState\<close> that \<^verbatim>\<open>receive_success\<close> writes. The accessors
  \<^verbatim>\<open>is_busy()\<close>, \<^verbatim>\<open>can_request_state()\<close>, \<^verbatim>\<open>failed_time_next()\<close> and
  \<^verbatim>\<open>success_time_next()\<close> are defined outside the modelled code; the value each returns
  for a tracker is a component of the tracker. A group is an \<^verbatim>\<open>unsigned int\<close>, a 32-bit
  word: adding 1 to the largest group gives group 0. Counters and times are unsigned
  32-bit integers that the modelled code compares and copies; they are natural numbers
  here, and the one increment (of \<^verbatim>\<open>m_success_counter\<close>) has its wrap-around written out.
\<close>

type_synonym tracker_ptr = nat

type_synonym group = "32 word"

datatype worker_kind = TrackerHttp | TrackerUdp | TrackerDht

record tracker =
  tracker_group :: group
  tracker_url :: string
  tracker_worker :: worker_kind
  flag_enabled :: bool
  flag_extra_tracker :: bool
  is_busy :: bool
  can_request_state :: bool
  failed_time_next :: nat
  success_time_next :: nat
  m_success_time_last :: nat
  m_success_counter :: nat
  m_failed_time_last :: nat
  m_failed_counter :: nat
  m_latest_sum_peers :: nat
  m_latest_new_peers :: nat

text \<open>
  The list itself: the vector, the store, the address that the next \<^verbatim>\<open>new\<close> returns, and
  the success slot of the orchestrator (unset, or a function from the tracker and the
  address list to the number of new peers). Addresses of peers are of any linearly
  ordered type.
\<close>

record 'a tracker_list =
  trackers :: "tracker_ptr list"
  heap :: "tracker_ptr \<Rightarrow> tracker"
  next_ptr :: tracker_ptr
  m_slot_success :: "(tracker_ptr \<Rightarrow> 'a list \<Rightarrow> nat) option"

subsection \<open>Iterators\<close>

text \<open>
  An iterator into the vector is an index; \<^verbatim>\<open>end()\<close> is the length of the list.
  \<^verbatim>\<open>std::find_if(itr, end(), pred)\<close>:
\<close>

function find_if :: "('a \<Rightarrow> bool) \<Rightarrow> 'a list \<Rightarrow> nat \<Rightarrow> nat" where
  "find_if P xs itr =
     (if length xs \<le> itr then length xs
      else if P (xs ! itr) then itr
      else find_if P xs (Suc itr))"
  by pat_completeness auto
termination
  by (relation "measure (\<lambda>(P, xs, itr). length xs - itr)") auto

declare find_if.simps [simp del]

text \<open>\<^verbatim>\<open>std::iter_swap(i, j)\<close> on two valid iterators.\<close>

definition iter_swap :: "'a list \<Rightarrow> nat \<Rightarrow> nat \<Rightarrow> 'a list" where
  "iter_swap xs i j = xs[i := xs ! j, j := xs ! i]"

definition begin_group :: "(tracker_ptr \<Rightarrow> tracker) \<Rightarrow> tracker_ptr list \<Rightarrow> group \<Rightarrow> nat" where
  "begin_group h xs g = find_if (\<lambda>t. g \<le> tracker_group (h t)) xs 0"

text \<open>
  Modelled from the spec: \<^verbatim>\<open>end_group\<close> is declared in \<^verbatim>\<open>torrent/tracker_list.h\<close>, which
  is not among the sources. The spec has \<open>insert\<close> "append into the group" and the list
  ordered by group, so the end of a group is where the next group begins:
  \<^verbatim>\<open>begin_group(group + 1)\<close>, with the addition of \<^verbatim>\<open>unsigned int\<close>, which wraps around.
\<close>

definition end_group :: "(tracker_ptr \<Rightarrow> tracker) \<Rightarrow> tracker_ptr list \<Rightarrow> group \<Rightarrow> nat" where
  "end_group h xs g = begin_group h xs (g + 1)"

subsection \<open>Operations\<close>

text \<open>
  \<^verbatim>\<open>find_next_to_request(itr)\<close>. The loop keeps the iterator \<open>itr\<close> and the iterator
  \<open>preferred\<close>; \<^verbatim>\<open>preferred_state\<close> is always the state of the tracker at \<open>preferred\<close>.
\<close>

function find_next_loop ::
  "(tracker_ptr \<Rightarrow> tracker) \<Rightarrow> tracker_ptr list \<Rightarrow> nat \<Rightarrow> nat \<Rightarrow> nat" where
  "find_next_loop h xs itr preferred =
     (if length xs \<le> Suc itr then preferred
      else
        let itr_state = h (xs ! Suc itr); preferred_state = h (xs ! preferred) in
        if \<not> can_request_state itr_state then find_next_loop h xs (Suc itr) preferred
        else if m_failed_counter itr_state \<noteq> 0 then
          (if failed_time_next itr_state < failed_time_next preferred_state
           then find_next_loop h xs (Suc itr) (Suc itr)
           else find_next_loop h xs (Suc itr) preferred)
        else
          (if success_time_next itr_state < failed_time_next preferred_state
           then Suc itr
           else preferred))"
  by pat_completeness auto
termination
  by (relation "measure (\<lambda>(h, xs, itr, preferred). length xs - itr)") auto

declare find_next_loop.simps [simp del]

definition find_next_to_request ::
  "(tracker_ptr \<Rightarrow> tracker) \<Rightarrow> tracker_ptr list \<Rightarrow> nat \<Rightarrow> nat" where
  "find_next_to_request h xs itr =
     (let preferred = find_if (\<lambda>t. can_request_state (h t)) xs itr in
      if preferred = length xs then length xs
      else if m_failed_counter (h (xs ! preferred)) = 0 then preferred
      else find_next_loop h xs preferred preferred)"

text \<open>
  \<^verbatim>\<open>cycle_group(group)\<close>: the loop walks \<open>itr\<close> and \<open>prev\<close> through the list, swapping
  as it goes.
\<close>

function cycle_loop ::
  "(tracker_ptr \<Rightarrow> tracker) \<Rightarrow> group \<Rightarrow> tracker_ptr list \<Rightarrow> nat \<Rightarrow> nat \<Rightarrow> tracker_ptr list" where
  "cycle_loop h g xs itr prev =
     (if Suc itr < length xs \<and> tracker_group (h (xs ! Suc itr)) = g
      then cycle_loop h g (iter_swap xs (Suc itr) prev) (Suc itr) (Suc itr)
      else xs)"
  by pat_completeness auto
termination
  by (relation "measure (\<lambda>(h, g, xs, itr, prev). length xs - itr)")
     (auto simp: iter_swap_def)

declare cycle_loop.simps [simp del]

definition cycle_group :: "group \<Rightarrow> 'a tracker_list \<Rightarrow> 'a tracker_list" where
  "cycle_group g s =
     (let itr = begin_group (heap s) (trackers s) g in
      if itr = length (trackers s) \<or> tracker_group (heap s (trackers s ! itr)) \<noteq> g then s
      else s\<lparr>trackers := cycle_loop (heap s) g (trackers s) itr itr\<rparr>)"

text \<open>
  \<^verbatim>\<open>promote(itr)\<close> dereferences \<open>itr\<close>, which has to be a valid iterator
  (\<open>itr < length (trackers s)\<close>); it returns the new list and the iterator \<open>first\<close>.
\<close>

definition promote :: "nat \<Rightarrow> 'a tracker_list \<Rightarrow> error + ('a tracker_list \<times> nat)" where
  "promote itr s =
     (let first = begin_group (heap s) (trackers s) (tracker_group (heap s (trackers s ! itr))) in
      if first = length (trackers s)
      then Inl (internal_error ''torrent::TrackerList::promote(...) Could not find beginning of group.'')
      else Inr (s\<lparr>trackers := iter_swap (trackers s) first itr\<rparr>, first))"

text \<open>
  \<^verbatim>\<open>insert(group, tracker)\<close>: the group of the tracker is set through the pointer, then the
  pointer is put into the vector at \<^verbatim>\<open>end_group(group)\<close>. The slots it installs on the
  worker are closures that call back into the list later, and the final call of
  \<^verbatim>\<open>m_slot_tracker_enabled\<close> notifies the owner of the list; neither changes the vector
  or the trackers. The result is the new list and the iterator to the new entry.
\<close>

definition insert_tracker :: "group \<Rightarrow> tracker_ptr \<Rightarrow> 'a tracker_list \<Rightarrow> 'a tracker_list \<times> nat" where
  "insert_tracker g t s =
     (let h = (heap s)(t := (heap s t)\<lparr>tracker_group := g\<rparr>);
          itr = end_group h (trackers s) g
      in (s\<lparr>heap := h, trackers := take itr (trackers s) @ t # drop itr (trackers s)\<rparr>, itr))"

text \<open>
  \<^verbatim>\<open>insert_url(group, url, extra_tracker)\<close>. \<^verbatim>\<open>strncmp(lit, url.c_str(), n) == 0\<close> with a
  literal of \<open>n\<close> characters holds exactly when the first \<open>n\<close> characters of the url are
  the literal. \<open>dht_allowed\<close> is the value of \<^verbatim>\<open>TrackerDht::is_allowed()\<close>. The new tracker
  lives at a new address; the worker's constructor gets the url and the flags, and what
  the constructors do with the rest of the state is outside the modelled code (the
  model leaves those components as the store has them).
\<close>

definition new_tracker ::
  "worker_kind \<Rightarrow> string \<Rightarrow> bool \<Rightarrow> 'a tracker_list \<Rightarrow> 'a tracker_list \<times> tracker_ptr" where
  "new_tracker k url extra s =
     (let t = next_ptr s in
      (s\<lparr>heap := (heap s)(t := (heap s t)\<lparr>tracker_url := url, tracker_worker := k,
                                         flag_enabled := True, flag_extra_tracker := extra\<rparr>),
         next_ptr := Suc t\<rparr>, t))"

definition insert_worker ::
  "group \<Rightarrow> worker_kind \<Rightarrow> string \<Rightarrow> bool \<Rightarrow> 'a tracker_list \<Rightarrow> 'a tracker_list" where
  "insert_worker g k url extra s =
     (case new_tracker k url extra s of (s1, t) \<Rightarrow> fst (insert_tracker g t s1))"

definition insert_url ::
  "bool \<Rightarrow> group \<Rightarrow> string \<Rightarrow> bool \<Rightarrow> 'a tracker_list \<Rightarrow> error + 'a tracker_list" where
  "insert_url dht_allowed g url extra_tracker s =
     (if take 7 url = ''http://'' \<or> take 8 url = ''https://''
      then Inr (insert_worker g TrackerHttp url extra_tracker s)
      else if take 6 url = ''udp://''
      then Inr (insert_worker g TrackerUdp url extra_tracker s)
      else if take 6 url = ''dht://'' \<and> dht_allowed
      then Inr (insert_worker g TrackerDht url extra_tracker s)
      else if extra_tracker
      then Inl (input_error (''could find matching tracker protocol (url:'' @ url @ '')''))
      else Inr s)"

text \<open>
  \<^verbatim>\<open>receive_success(tracker, l)\<close>; \<open>now\<close> is \<^verbatim>\<open>cachedTime.seconds()\<close>. \<^verbatim>\<open>find(tracker)\<close>
  is \<^verbatim>\<open>std::find\<close> over the vector. \<^verbatim>\<open>l->sort()\<close> followed by erasing from
  \<^verbatim>\<open>std::unique\<close> sorts the address list and removes adjacent duplicates. The result is
  the new list together with the address list as the slot has seen it.
\<close>

definition find_tracker :: "tracker_ptr \<Rightarrow> 'a tracker_list \<Rightarrow> nat" where
  "find_tracker t s = find_if (\<lambda>q. q = t) (trackers s) 0"

definition receive_success ::
  "nat \<Rightarrow> tracker_ptr \<Rightarrow> 'a::linorder list \<Rightarrow> 'a tracker_list \<Rightarrow> error + ('a tracker_list \<times> 'a list)" where
  "receive_success now t l s =
     (let itr = find_tracker t s in
      if itr = length (trackers s) \<or> is_busy (heap s t)
      then Inl (internal_error ''TrackerList::receive_success(...) called but the iterator is invalid.'')
      else
        case promote itr s of
          Inl e \<Rightarrow> Inl e
        | Inr (s1, first) \<Rightarrow>
            let l1 = remdups_adj (sort l);
                s2 = s1\<lparr>heap := (heap s1)(t := (heap s1 t)
                          \<lparr>m_success_time_last := now,
                           m_success_counter := (m_success_counter (heap s1 t) + 1) mod 2 ^ 32,
                           m_failed_counter := 0,
                           m_latest_sum_peers := length l1\<rparr>)\<rparr>
            in case m_slot_success s2 of
                 None \<Rightarrow> Inr (s2, l1)
               | Some slot \<Rightarrow>
                   let new_peers = slot t l1 in
                   Inr (s2\<lparr>heap := (heap s2)(t := (heap s2 t)\<lparr>m_latest_new_peers := new_peers\<rparr>)\<rparr>, l1))"

text \<open>
  \<^verbatim>\<open>randomize_group_entries()\<close> shuffles each range \<open>[itr, end_group(group of itr))\<close>
  with a random number generator. The model is a relation: \<^verbatim>\<open>std::shuffle\<close> leaves some
  permutation of the range, and the loop goes on from the end of the range. A range
  whose end lies before its beginning is undefined for \<^verbatim>\<open>std::shuffle\<close> and has no result
  here.
\<close>

inductive randomize_loop ::
  "(tracker_ptr \<Rightarrow> tracker) \<Rightarrow> tracker_ptr list \<Rightarrow> nat \<Rightarrow> tracker_ptr list \<Rightarrow> bool"
  for h :: "tracker_ptr \<Rightarrow> tracker" where
  randomize_end: "length xs \<le> itr \<Longrightarrow> randomize_loop h xs itr xs"
| randomize_shuffle:
    "itr < length xs \<Longrightarrow> tmp = end_group h xs (tracker_group (h (xs ! itr))) \<Longrightarrow> itr \<le> tmp \<Longrightarrow>
     mset shuffled = mset (take (tmp - itr) (drop itr xs)) \<Longrightarrow>
     randomize_loop h (take itr xs @ shuffled @ drop tmp xs) tmp xs' \<Longrightarrow>
     randomize_loop h xs itr xs'"

definition randomize_group_entries :: "'a tracker_list \<Rightarrow> 'a tracker_list \<Rightarrow> bool" where
  "randomize_group_entries s s' =
     (\<exists>xs'. randomize_loop (heap s) (trackers s) 0 xs' \<and> s' = s\<lparr>trackers := xs'\<rparr>)"

subsection \<open>Sequences of operations\<close>

datatype tl_op =
    Insert group tracker_ptr
  | Promote nat
  | Cycle_group group
  | Randomize_group_entries

text \<open>
  One operation on the list. A tracker object is owned by the list it is inserted into,
  so the pointer given to \<open>insert\<close> is not yet in the vector; \<open>promote\<close> is given a valid
  iterator.
\<close>

inductive step :: "'a tracker_list \<Rightarrow> tl_op \<Rightarrow> 'a tracker_list \<Rightarrow> bool" where
  step_insert: "t \<notin> set (trackers s) \<Longrightarrow> step s (Insert g t) (fst (insert_tracker g t s))"
| step_promote: "itr < length (trackers s) \<Longrightarrow> promote itr s = Inr (s', first) \<Longrightarrow> step s (Promote itr) s'"
| step_cycle_group: "step s (Cycle_group g) (cycle_group g s)"
| step_randomize: "randomize_group_entries s s' \<Longrightarrow> step s Randomize_group_entries s'"

inductive run :: "'a tracker_list \<Rightarrow> tl_op list \<Rightarrow> 'a tracker_list \<Rightarrow> bool" where
  run_Nil: "run s [] s"
| run_Cons: "step s op s' \<Longrightarrow> run s' ops s'' \<Longrightarrow> run s (op # ops) s''"

text \<open>The groups of the trackers in the order of the list.\<close>

definition groups :: "'a tracker_list \<Rightarrow> group list" where
  "groups s = map (\<lambda>t. tracker_group (heap s t)) (trackers s)"

text \<open>
  An operation whose group arithmetic does not wrap around: every operation but an
  \<open>insert\<close> into the largest group, \<open>4294967295\<close>, for which \<^verbatim>\<open>group + 1\<close> is 0.
\<close>

fun no_wrap :: "tl_op \<Rightarrow> bool" where
  "no_wrap (Insert g t) = (g + 1 \<noteq> 0)"
| "no_wrap op = True"

definition piece_long :: piece where
  "piece_long = \<lparr>get_index = 0, get_offset = 0, get_length = 131073\<rparr>"

definition piece_missing :: piece where
  "piece_missing = \<lparr>get_index = 1, get_offset = 0, get_length = 16384\<rparr>"

subsection \<open>Reading the tracker at an iterator\<close>

text \<open>
  What \<^verbatim>\<open>find_next_to_request\<close> reads of the tracker at index \<open>k\<close> of the list:
  whether it can be requested, whether it has failures, and its two times. \<open>stop_at\<close>
  is the first tracker from an index on that can be requested and has no failures.
\<close>

abbreviation req :: "(tracker_ptr \<Rightarrow> tracker) \<Rightarrow> tracker_ptr list \<Rightarrow> nat \<Rightarrow> bool" where
  "req h xs k \<equiv> can_request_state (h (xs ! k))"
abbreviation failing :: "(tracker_ptr \<Rightarrow> tracker) \<Rightarrow> tracker_ptr list \<Rightarrow> nat \<Rightarrow> bool" where
  "failing h xs k \<equiv> m_failed_counter (h (xs ! k)) \<noteq> 0"
abbreviation ftn :: "(tracker_ptr \<Rightarrow> tracker) \<Rightarrow> tracker_ptr list \<Rightarrow> nat \<Rightarrow> nat" where
  "ftn h xs k \<equiv> failed_time_next (h (xs ! k))"
abbreviation stn :: "(tracker_ptr \<Rightarrow> tracker) \<Rightarrow> tracker_ptr list \<Rightarrow> nat \<Rightarrow> nat" where
  "stn h xs k \<equiv> success_time_next (h (xs ! k))"
abbreviation stop_at :: "(tracker_ptr \<Rightarrow> tracker) \<Rightarrow> tracker_ptr list \<Rightarrow> nat \<Rightarrow> nat" where
  "stop_at h xs i \<equiv> find_if (\<lambda>t. can_request_state (h t) \<and> m_failed_counter (h t) = 0) xs i"

subsection \<open>Concrete tracker lists\<close>

definition tracker0 :: tracker where
  "tracker0 = \<lparr>tracker_group = 0, tracker_url = ''http://tracker.example/announce'',
               tracker_worker = TrackerHttp, flag_enabled = True, flag_extra_tracker = False,
               is_busy = False, can_request_state = True, failed_time_next = 0,
               success_time_next = 0, m_success_time_last = 0, m_success_counter = 0,
               m_failed_time_last = 0, m_failed_counter = 0, m_latest_sum_peers = 0,
               m_latest_new_peers = 0\<rparr>"

definition heap_success :: "tracker_ptr \<Rightarrow> tracker" where
  "heap_success =
     (\<lambda>t. tracker0)
       (1 := tracker0\<lparr>success_time_next := 10\<rparr>,
        2 := tracker0\<lparr>success_time_next := 5\<rparr>)"

definition heap_failed :: "tracker_ptr \<Rightarrow> tracker" where
  "heap_failed =
     (\<lambda>t. tracker0)
       (1 := tracker0\<lparr>m_failed_counter := 1, failed_time_next := 10\<rparr>,
        2 := tracker0\<lparr>success_time_next := 20\<rparr>,
        3 := tracker0\<lparr>m_failed_counter := 1, failed_time_next := 5\<rparr>)"


definition heap_mixed :: "tracker_ptr \<Rightarrow> tracker" where
  "heap_mixed =
     (\<lambda>t. tracker0)
       (1 := tracker0\<lparr>m_failed_counter := 1, failed_time_next := 10\<rparr>,
        2 := tracker0\<lparr>m_failed_counter := 2, failed_time_next := 7\<rparr>,
        3 := tracker0\<lparr>can_request_state := False\<rparr>,
        4 := tracker0\<lparr>success_time_next := 9\<rparr>,
        5 := tracker0\<lparr>m_failed_counter := 1, failed_time_next := 1\<rparr>)"

definition heap_groups :: "tracker_ptr \<Rightarrow> tracker" where
  "heap_groups =
     (\<lambda>t. tracker0)
       (1 := tracker0\<lparr>tracker_group := 0\<rparr>,
        2 := tracker0\<lparr>tracker_group := 1\<rparr>,
        3 := tracker0\<lparr>tracker_group := 1\<rparr>,
        4 := tracker0\<lparr>tracker_group := 1\<rparr>,
        5 := tracker0\<lparr>tracker_group := 2\<rparr>)"

definition tl_groups :: "nat tracker_list" where
  "tl_groups = \<lparr>trackers = [1, 2, 3, 4, 5], heap = heap_groups, next_ptr = 6,
                m_slot_success = None\<rparr>"

definition heap_run :: "tracker_ptr \<Rightarrow> tracker" where
  "heap_run =
     (\<lambda>t. tracker0)
       (10 := tracker0\<lparr>tracker_group := 1\<rparr>,
        11 := tracker0\<lparr>tracker_group := 0\<rparr>,
        12 := tracker0\<lparr>tracker_group := 1\<rparr>)"

definition tl_empty :: "nat tracker_list" where
  "tl_empty = \<lparr>trackers = [], heap = (\<lambda>t. tracker0), next_ptr = 0, m_slot_success = None\<rparr>"

definition tl_wrap :: "nat tracker_list" where
  "tl_wrap = \<lparr>trackers = [11, 10],
              heap = (\<lambda>t. tracker0)
                (10 := tracker0\<lparr>tracker_group := 0\<rparr>,
                 11 := tracker0\<lparr>tracker_group := 4294967295\<rparr>),
              next_ptr = 0, m_slot_success = None\<rparr>"

definition tl_run :: "tracker_ptr list \<Rightarrow> nat tracker_list" where
  "tl_run xs = \<lparr>trackers = xs, heap = heap_run, next_ptr = 0, m_slot_success = None\<rparr>"

definition tl_slot :: "nat tracker_list" where
  "tl_slot = tl_groups\<lparr>heap := heap_groups(3 := (heap_groups 3)\<lparr>m_failed_counter := 2\<rparr>),
                        m_slot_success := Some (\<lambda>t l. 2)\<rparr>"

definition url_ftp :: string where
  "url_ftp = ''ftp://tracker.example/announce''"

definition url_dht :: string where
  "url_dht = ''dht://''"

section \<open>Peer connection: properties\<close>

text \<open>
  C8. \<open>should_request()\<close> is true exactly when the remote has not choked us and we are
  interested, and in addition the download is not in endgame, or the peer's stall count
  is at most 1, or the aggregate download rate is below 10 KiB/s (10240).
\<close>

theorem should_request_iff:
  "should_request d s \<longleftrightarrow>
     (\<not> down_choked s \<and> up_interested s) \<and>
     (\<not> get_endgame d \<or> m_downStall s \<le> 1 \<or> down_rate d < 10240)"
  by (simp add: should_request_def)

theorem should_request_iff_witness:
  "\<not> should_request download0 (peer0\<lparr>m_downStall := 2\<rparr>) \<and>
   should_request download0 (peer0\<lparr>m_downStall := 1\<rparr>) \<and>
   should_request (download0\<lparr>down_rate := 10239\<rparr>) (peer0\<lparr>m_downStall := 2\<rparr>) \<and>
   should_request (download0\<lparr>get_endgame := False\<rparr>) (peer0\<lparr>m_downStall := 2\<rparr>) \<and>
   \<not> should_request (download0\<lparr>get_endgame := False\<rparr>) (peer0\<lparr>down_choked := True\<rparr>)"
  using should_request_iff [of download0 "peer0\<lparr>m_downStall := 2\<rparr>"]
        should_request_iff [of download0 "peer0\<lparr>m_downStall := 1\<rparr>"]
        should_request_iff [of "download0\<lparr>down_rate := 10239\<rparr>" "peer0\<lparr>m_downStall := 2\<rparr>"]
        should_request_iff [of "download0\<lparr>get_endgame := False\<rparr>" "peer0\<lparr>m_downStall := 2\<rparr>"]
        should_request_iff [of "download0\<lparr>get_endgame := False\<rparr>" "peer0\<lparr>down_choked := True\<rparr>"]
  by (simp add: download0_def peer0_def)

text \<open>
  C10. \<open>receive_choke(v)\<close> with \<open>v\<close> equal to the current up-choke state is an
  \<open>internal_error\<close>. When \<open>v\<close> differs from it, the call does not fail: it sets the
  up-choke state to \<open>v\<close>, sets the send-choked flag and records the time of the choke
  (and asks for the write poll; nothing else changes).
\<close>

theorem receive_choke_spec:
  "(v = up_choked s \<longrightarrow>
      receive_choke now v s =
        Inl (internal_error ''PeerConnectionBase::receive_choke(...) already set to the same state.'')) \<and>
   (v \<noteq> up_choked s \<longrightarrow>
      (\<exists>s'. receive_choke now v s = Inr s' \<and>
            up_choked s' = v \<and> m_sendChoked s' \<and> m_timeLastChoked s' = now \<and>
            s' = s\<lparr>up_choked := v, m_sendChoked := True, m_timeLastChoked := now,
                   calls := calls s @ [write_insert_poll_safe]\<rparr>))"
  by (simp add: receive_choke_def do_call_def)

theorem receive_choke_spec_witness:
  "receive_choke 7 False peer0 =
     Inl (internal_error ''PeerConnectionBase::receive_choke(...) already set to the same state.'') \<and>
   receive_choke 7 True peer0 =
     Inr (peer0\<lparr>up_choked := True, m_sendChoked := True, m_timeLastChoked := 7,
                calls := [write_insert_poll_safe]\<rparr>)"
  using receive_choke_spec [of False peer0 7] receive_choke_spec [of True peer0 7]
  by (simp add: peer0_def)

text \<open>
  C7, as stated: every call of \<open>set_snubbed(v)\<close> with \<open>v\<close> different from the current
  flag consults the choke manager exactly once. This fails: a peer whose remote is not
  interested (no upload is wanted) is snubbed, and later unsnubbed, without any call to
  the choke manager.
\<close>

theorem set_snubbed_no_consult_counterexample:
  "m_snubbed peer0 \<noteq> True \<and>
   set_snubbed True peer0 = peer0\<lparr>m_snubbed := True\<rparr> \<and>
   calls (set_snubbed True peer0) = [] \<and>
   m_snubbed (peer0\<lparr>m_snubbed := True\<rparr>) \<noteq> False \<and>
   set_snubbed False (peer0\<lparr>m_snubbed := True\<rparr>) = peer0 \<and>
   calls (set_snubbed False (peer0\<lparr>m_snubbed := True\<rparr>)) = []"
  by (simp add: set_snubbed_def is_upload_wanted_def do_call_def peer0_def)

text \<open>
  C7, amended. If \<open>v\<close> equals the current snub flag, \<open>set_snubbed(v)\<close> changes nothing
  and makes no call. If \<open>v\<close> differs, the flag becomes \<open>v\<close> and the choke manager is
  consulted at most once: \<open>set_not_interested\<close> on entering the snubbed state when an
  upload was wanted before the change, \<open>set_interested\<close> on leaving it when an upload is
  wanted after the change, and no call at all when no upload is wanted.
\<close>

theorem set_snubbed_spec:
  "(v = m_snubbed s \<longrightarrow> set_snubbed v s = s) \<and>
   (v \<noteq> m_snubbed s \<and> v \<longrightarrow>
      set_snubbed v s =
        s\<lparr>m_snubbed := True,
           calls := calls s @ (if is_upload_wanted s then [choke_set_not_interested] else [])\<rparr>) \<and>
   (v \<noteq> m_snubbed s \<and> \<not> v \<longrightarrow>
      set_snubbed v s =
        s\<lparr>m_snubbed := False,
           calls := calls s @
             (if is_upload_wanted (s\<lparr>m_snubbed := False\<rparr>) then [choke_set_interested] else [])\<rparr>)"
  by (simp add: set_snubbed_def do_call_def Let_def is_upload_wanted_def)

theorem set_snubbed_spec_witness:
  "set_snubbed False (peer0\<lparr>down_interested := True\<rparr>) = peer0\<lparr>down_interested := True\<rparr> \<and>
   set_snubbed True (peer0\<lparr>down_interested := True\<rparr>) =
     peer0\<lparr>down_interested := True, m_snubbed := True, calls := [choke_set_not_interested]\<rparr> \<and>
   set_snubbed False (peer0\<lparr>down_interested := True, m_snubbed := True\<rparr>) =
     peer0\<lparr>down_interested := True, m_snubbed := False, calls := [choke_set_interested]\<rparr>"
  using set_snubbed_spec [of False "peer0\<lparr>down_interested := True\<rparr>"]
        set_snubbed_spec [of True "peer0\<lparr>down_interested := True\<rparr>"]
        set_snubbed_spec [of False "peer0\<lparr>down_interested := True, m_snubbed := True\<rparr>"]
  by (simp add: peer0_def is_upload_wanted_def)

text \<open>
  C4. When the pin of the outgoing (up) chunk fails, the \<open>storage_error\<close> of
  \<open>load_up_chunk\<close> should carry the error number of the up chunk handle. The code reads
  the down chunk handle instead. Here the chunk list refuses the pin with error number
  13 while the down chunk handle holds error number 0: \<open>load_up_chunk\<close> reports 0. The
  sibling \<open>load_down_chunk\<close> reports the error number of the handle it has just fetched.
\<close>

theorem load_up_chunk_reports_down_chunk_error:
  "error_number (chunk_list_get download0 (get_index (m_upPiece peer0)) False) = 13 \<and>
   error_number (m_downChunk peer0) = 0 \<and>
   load_up_chunk download0 peer0 = Inl (storage_error ''File chunk read error: '' 0) \<and>
   load_down_chunk download0 piece0 peer0 = Inl (storage_error ''File chunk write error: '' 13)"
  by (simp add: load_up_chunk_def load_down_chunk_def up_chunk_release_def
      down_chunk_release_def download0_def peer0_def piece0_def no_chunk_def Let_def)

text \<open>
  C2, as stated: a request longer than \<open>2^17\<close> bytes, or for a piece we do not have, is
  rejected as a \<open>communication_error\<close>. This fails in \<open>read_request_piece\<close>: the long
  request is dropped without any error, and the request for a piece we do not have is
  put on the send list.
\<close>

theorem read_request_piece_no_error_counterexample:
  "get_length piece_long > 2 ^ 17 \<and>
   read_request_piece piece_long peer0 = Inr peer0 \<and>
   \<not> has_chunk download0 (get_index piece_missing) \<and>
   read_request_piece piece_missing peer0 =
     Inr (peer0\<lparr>m_sendList := [piece_missing], calls := [write_insert_poll_safe]\<rparr>)"
  by (simp add: read_request_piece_def do_call_def peer0_def download0_def
      piece_long_def piece_missing_def piece0_def)

text \<open>
  C2, amended. A request from the remote is dropped, without an error, if we are choking
  the remote, if it is already in the send list, or if its length exceeds \<open>2^17\<close>;
  otherwise it is appended to the send list (and the write poll is asked for). Whether
  the piece is valid and one we have is checked only when \<open>write_prepare_piece\<close> takes
  the request from the head of the send list: a request that fails either check is then
  rejected as a \<open>communication_error\<close>, and any other request is handed to the write
  protocol.
\<close>

theorem read_request_piece_spec:
  "(up_choked s \<or> p \<in> set (m_sendList s) \<or> get_length p > 2 ^ 17 \<longrightarrow>
      read_request_piece p s = Inr s) \<and>
   (\<not> up_choked s \<and> p \<notin> set (m_sendList s) \<and> get_length p \<le> 2 ^ 17 \<longrightarrow>
      read_request_piece p s =
        Inr (s\<lparr>m_sendList := m_sendList s @ [p], calls := calls s @ [write_insert_poll_safe]\<rparr>)) \<and>
   (m_sendList s = p # rest \<and> (\<not> is_valid_piece d p \<or> \<not> has_chunk d (get_index p)) \<longrightarrow>
      write_prepare_piece d s =
        Some (Inl (communication_error ''Peer requested a piece with invalid index or length/offset.''))) \<and>
   (m_sendList s = p # rest \<and> is_valid_piece d p \<and> has_chunk d (get_index p) \<longrightarrow>
      write_prepare_piece d s =
        Some (Inr (s\<lparr>m_upPiece := p, m_sendList := rest, calls := calls s @ [up_write_piece p]\<rparr>)))"
  by (auto simp add: read_request_piece_def write_prepare_piece_def do_call_def Let_def)

theorem read_request_piece_spec_witness:
  "read_request_piece piece_long peer0 = Inr peer0 \<and>
   read_request_piece piece0 (peer0\<lparr>up_choked := True\<rparr>) = Inr (peer0\<lparr>up_choked := True\<rparr>) \<and>
   read_request_piece piece0 peer0 =
     Inr (peer0\<lparr>m_sendList := [piece0], calls := [write_insert_poll_safe]\<rparr>) \<and>
   write_prepare_piece download0 (peer0\<lparr>m_sendList := [piece_missing]\<rparr>) =
     Some (Inl (communication_error ''Peer requested a piece with invalid index or length/offset.'')) \<and>
   write_prepare_piece download0 (peer0\<lparr>m_sendList := [piece0]\<rparr>) =
     Some (Inr (peer0\<lparr>m_upPiece := piece0, m_sendList := [], calls := [up_write_piece piece0]\<rparr>))"
  using read_request_piece_spec [of peer0 piece_long "[]" download0]
        read_request_piece_spec [of "peer0\<lparr>up_choked := True\<rparr>" piece0 "[]" download0]
        read_request_piece_spec [of peer0 piece0 "[]" download0]
        read_request_piece_spec [of "peer0\<lparr>m_sendList := [piece_missing]\<rparr>" piece_missing "[]" download0]
        read_request_piece_spec [of "peer0\<lparr>m_sendList := [piece0]\<rparr>" piece0 "[]" download0]
  by (simp add: peer0_def download0_def piece_long_def piece_missing_def piece0_def)

section \<open>Tracker list: properties\<close>

subsection \<open>\<open>find_if\<close>\<close>

lemma find_if_le: "find_if P xs i \<le> length xs"
  by (induction P xs i rule: find_if.induct) (subst find_if.simps, simp)

lemma find_if_ge: "i \<le> length xs \<Longrightarrow> i \<le> find_if P xs i"
proof (induction P xs i rule: find_if.induct)
  case (1 P xs itr)
  show ?case
  proof (cases "length xs \<le> itr \<or> P (xs ! itr)")
    case True
    then show ?thesis using "1.prems" by (subst find_if.simps) auto
  next
    case False
    then have "Suc itr \<le> find_if P xs (Suc itr)" using "1.IH" by simp
    then show ?thesis using False by (subst find_if.simps) simp
  qed
qed

lemma find_if_holds: "find_if P xs i < length xs \<Longrightarrow> P (xs ! find_if P xs i)"
proof (induction P xs i rule: find_if.induct)
  case (1 P xs itr)
  then show ?case
    by (subst find_if.simps, subst (asm) (3) find_if.simps) (auto split: if_splits)
qed

lemma find_if_first: "i \<le> k \<Longrightarrow> k < find_if P xs i \<Longrightarrow> \<not> P (xs ! k)"
proof (induction P xs i rule: find_if.induct)
  case (1 P xs itr)
  show ?case
  proof (cases "length xs \<le> itr \<or> P (xs ! itr)")
    case True
    then show ?thesis using "1.prems" find_if_le [of P xs itr]
      by (subst (asm) find_if.simps) (auto split: if_splits)
  next
    case False
    then have eq: "find_if P xs itr = find_if P xs (Suc itr)"
      by (subst find_if.simps) simp
    show ?thesis
    proof (cases "k = itr")
      case True
      then show ?thesis using False by simp
    next
      case False': False
      then show ?thesis using "1.IH" False "1.prems" eq by simp
    qed
  qed
qed

lemma find_if_eqI:
  "i \<le> r \<Longrightarrow> r \<le> length xs \<Longrightarrow> (r < length xs \<Longrightarrow> P (xs ! r)) \<Longrightarrow>
   (\<And>k. i \<le> k \<Longrightarrow> k < r \<Longrightarrow> \<not> P (xs ! k)) \<Longrightarrow> find_if P xs i = r"
proof -
  assume a: "i \<le> r" "r \<le> length xs" "(r < length xs \<Longrightarrow> P (xs ! r))" "(\<And>k. i \<le> k \<Longrightarrow> k < r \<Longrightarrow> \<not> P (xs ! k))"
  let ?f = "find_if P xs i"
  have 1: "i \<le> ?f" using a by (intro find_if_ge) simp
  have 2: "?f \<le> length xs" by (rule find_if_le)
  have "\<not> ?f < r"
  proof
    assume "?f < r"
    then have "?f < length xs" using a by simp
    then have "P (xs ! ?f)" by (rule find_if_holds)
    then show False using a(4)[OF 1 \<open>?f < r\<close>] by simp
  qed
  moreover have "\<not> r < ?f"
  proof
    assume "r < ?f"
    then have "\<not> P (xs ! r)" using find_if_first a(1) by blast
    moreover have "r < length xs" using \<open>r < ?f\<close> 2 by simp
    ultimately show False using a(3) by simp
  qed
  ultimately show ?thesis by simp
qed



subsection \<open>\<open>find_next_to_request\<close>\<close>

text \<open>
  The loop of \<open>find_next_to_request\<close>, entered at \<open>itr\<close> with \<open>preferred = p\<close>: it looks
  at the requestable trackers after \<open>itr\<close> up to the first one without failures.
\<close>

lemma find_next_loop_spec:
  assumes "find_next_loop h xs itr p = r" "p \<le> itr" "itr < length xs"
  shows "(r = p \<or> (itr < r \<and> r \<le> stop_at h xs (Suc itr) \<and> r < length xs \<and> req h xs r)) \<and>
         (r \<noteq> stop_at h xs (Suc itr) \<longrightarrow>
            (r = p \<or> failing h xs r) \<and>
            (r \<noteq> p \<longrightarrow> ftn h xs r < ftn h xs p) \<and>
            (\<forall>k. itr < k \<and> k < stop_at h xs (Suc itr) \<and> req h xs k \<longrightarrow> ftn h xs r \<le> ftn h xs k) \<and>
            (\<forall>k. itr < k \<and> k < r \<and> req h xs k \<longrightarrow> ftn h xs r < ftn h xs k) \<and>
            (stop_at h xs (Suc itr) < length xs \<longrightarrow> \<not> stn h xs (stop_at h xs (Suc itr)) < ftn h xs r)) \<and>
         (r = stop_at h xs (Suc itr) \<longrightarrow>
            r < length xs \<and> stn h xs r < ftn h xs p \<and>
            (\<forall>k. itr < k \<and> k < r \<and> req h xs k \<longrightarrow> stn h xs r < ftn h xs k))"
  using assms
proof (induction h xs itr p rule: find_next_loop.induct)
  case (1 h xs itr p)
  let ?Q = "\<lambda>t. can_request_state (h t) \<and> m_failed_counter (h t) = 0"
  let ?C = "\<lambda>itr p. (r = p \<or> (itr < r \<and> r \<le> stop_at h xs (Suc itr) \<and> r < length xs \<and> req h xs r)) \<and>
         (r \<noteq> stop_at h xs (Suc itr) \<longrightarrow>
            (r = p \<or> failing h xs r) \<and>
            (r \<noteq> p \<longrightarrow> ftn h xs r < ftn h xs p) \<and>
            (\<forall>k. itr < k \<and> k < stop_at h xs (Suc itr) \<and> req h xs k \<longrightarrow> ftn h xs r \<le> ftn h xs k) \<and>
            (\<forall>k. itr < k \<and> k < r \<and> req h xs k \<longrightarrow> ftn h xs r < ftn h xs k) \<and>
            (stop_at h xs (Suc itr) < length xs \<longrightarrow> \<not> stn h xs (stop_at h xs (Suc itr)) < ftn h xs r)) \<and>
         (r = stop_at h xs (Suc itr) \<longrightarrow>
            r < length xs \<and> stn h xs r < ftn h xs p \<and>
            (\<forall>k. itr < k \<and> k < r \<and> req h xs k \<longrightarrow> stn h xs r < ftn h xs k))"
  show ?case
  proof (cases "length xs \<le> Suc itr")
    case True
    then have r: "r = p" using "1.prems"(1) by (subst (asm) find_next_loop.simps) simp
    have s: "find_if ?Q xs (Suc itr) = length xs" using True by (subst find_if.simps) simp
    show ?thesis unfolding r s using "1.prems" True by auto
  next
    case inr: False
    have sk: "Suc itr < k" if "itr < k" "k \<noteq> Suc itr" for k
      using that by simp
    show ?thesis
    proof (cases "req h xs (Suc itr)")
      case False
      have s: "find_if ?Q xs (Suc itr) = find_if ?Q xs (Suc (Suc itr))"
        using inr False by (subst find_if.simps) simp
      have "find_next_loop h xs (Suc itr) p = r"
        using "1.prems"(1) inr False by (subst (asm) find_next_loop.simps) (simp add: Let_def)
      from "1.IH"(1)[OF inr refl refl False this] "1.prems" inr
      have IH: "?C (Suc itr) p" by simp
      have k: "\<And>k. itr < k \<Longrightarrow> req h xs k \<Longrightarrow> Suc itr < k"
        using False by (metis Suc_lessI)
      show ?thesis unfolding s using IH k by (auto simp del: not_less)
    next
      case rq: True
      show ?thesis
      proof (cases "failing h xs (Suc itr)")
        case fl: True
        have s: "find_if ?Q xs (Suc itr) = find_if ?Q xs (Suc (Suc itr))"
          using inr fl by (subst find_if.simps) simp
        show ?thesis
        proof (cases "ftn h xs (Suc itr) < ftn h xs p")
          case lt: True
          have "find_next_loop h xs (Suc itr) (Suc itr) = r"
            using "1.prems"(1) inr rq fl lt by (subst (asm) find_next_loop.simps) (simp add: Let_def)
          from "1.IH"(2)[OF inr refl refl _ fl lt this] rq "1.prems" inr
          have IH: "?C (Suc itr) (Suc itr)" by simp
          have k: "k = Suc itr \<or> Suc itr < k" if "itr < k" for k
            using that by auto
          have nx: "Suc itr < stop_at h xs (Suc (Suc itr))"
            using find_if_ge [of "Suc (Suc itr)" xs ?Q] inr by simp
          have p: "p \<noteq> Suc itr" "\<not> itr < p" using "1.prems" by auto
          show ?thesis unfolding s using IH lt rq fl nx p inr
            apply (intro conjI impI allI)
            subgoal by auto
            subgoal by auto
            subgoal by auto
            subgoal for k using k [of k] by auto
            subgoal for k using k [of k] by auto
            subgoal by auto
            subgoal by auto
            subgoal by auto
            subgoal for k using k [of k] by auto
            done
        next
          case ge: False
          have "find_next_loop h xs (Suc itr) p = r"
            using "1.prems"(1) inr rq fl ge by (subst (asm) find_next_loop.simps) (simp add: Let_def)
          from "1.IH"(3)[OF inr refl refl _ fl ge this] rq "1.prems" inr
          have IH: "?C (Suc itr) p" by simp
          have k: "k = Suc itr \<or> Suc itr < k" if "itr < k" for k
            using that by auto
          have p: "p \<noteq> Suc itr" "\<not> itr < p" using "1.prems" by auto
          show ?thesis unfolding s using IH ge rq fl p inr
            apply (intro conjI impI allI)
            subgoal by auto
            subgoal by auto
            subgoal by auto
            subgoal for k using k [of k] by auto
            subgoal for k using k [of k] by auto
            subgoal by auto
            subgoal by auto
            subgoal by auto
            subgoal for k using k [of k] by auto
            done
        qed
      next
        case nf: False
        have s: "find_if ?Q xs (Suc itr) = Suc itr"
          using inr nf rq by (subst find_if.simps) simp
        have r: "r = (if stn h xs (Suc itr) < ftn h xs p then Suc itr else p)"
          using "1.prems"(1) inr rq nf by (subst (asm) find_next_loop.simps) (simp add: Let_def)
        show ?thesis unfolding s using r "1.prems" inr rq nf by auto
      qed
    qed
  qed
qed


text \<open>
  C1, as stated: among the requestable trackers the result is the one with the earliest
  \<open>failed_time_next\<close> if it has failures, and otherwise the one with the earliest
  \<open>success_time_next\<close>. This fails twice. With two requestable trackers without
  failures, the first is returned although the second has the earlier
  \<open>success_time_next\<close>. With a failing tracker, then a tracker without failures, then a
  failing tracker with the earliest \<open>failed_time_next\<close> of all, the first is returned:
  the search stops at the tracker without failures and never sees the third.
\<close>

theorem find_next_to_request_not_earliest_counterexample:
  "find_next_to_request heap_success [1, 2] 0 = 0 \<and>
   can_request_state (heap_success 2) \<and> m_failed_counter (heap_success 2) = 0 \<and>
   m_failed_counter (heap_success 1) = 0 \<and>
   success_time_next (heap_success 2) < success_time_next (heap_success 1) \<and>
   find_next_to_request heap_failed [1, 2, 3] 0 = 0 \<and>
   can_request_state (heap_failed 3) \<and> m_failed_counter (heap_failed 3) \<noteq> 0 \<and>
   m_failed_counter (heap_failed 1) \<noteq> 0 \<and>
   failed_time_next (heap_failed 3) < failed_time_next (heap_failed 1)"
  by (simp add: find_next_to_request_def find_if.simps find_next_loop.simps
      heap_success_def heap_failed_def tracker0_def Let_def)

text \<open>
  C1, amended. \<open>find_next_to_request(itr)\<close> returns \<open>end()\<close> exactly when no tracker at
  or after \<open>itr\<close> can be requested; otherwise it returns a requestable tracker at or
  after \<open>itr\<close>. Let \<open>f\<close> be the first requestable tracker at or after \<open>itr\<close>. If \<open>f\<close>
  has no failures, the result is \<open>f\<close>, whatever the later trackers are. If \<open>f\<close> has
  failures, let \<open>s\<close> be the first requestable tracker after \<open>f\<close> without failures (or
  \<open>end()\<close>): the result is the first of the requestable trackers in \<open>[f, s)\<close> with the
  least \<open>failed_time_next\<close>, unless \<open>s\<close> is a tracker whose \<open>success_time_next\<close> is
  strictly less than that \<open>failed_time_next\<close>, in which case the result is \<open>s\<close>.
  Trackers after \<open>s\<close> are not considered.
\<close>

theorem find_next_to_request_spec:
  fixes h :: "tracker_ptr \<Rightarrow> tracker" and xs :: "tracker_ptr list" and i :: nat
  assumes r: "r = find_next_to_request h xs i"
  shows "r \<le> length xs \<and>
    (r = length xs \<longleftrightarrow> (\<forall>k. i \<le> k \<and> k < length xs \<longrightarrow> \<not> req h xs k)) \<and>
    (r < length xs \<longrightarrow> i \<le> r \<and> req h xs r) \<and>
    (\<forall>f. i \<le> f \<and> f < length xs \<and> req h xs f \<and> (\<forall>k. i \<le> k \<and> k < f \<longrightarrow> \<not> req h xs k) \<longrightarrow>
       (\<not> failing h xs f \<longrightarrow> r = f) \<and>
       (failing h xs f \<longrightarrow>
          (\<forall>s. f < s \<and> s \<le> length xs \<and> (s < length xs \<longrightarrow> req h xs s \<and> \<not> failing h xs s) \<and>
               (\<forall>k. f \<le> k \<and> k < s \<and> req h xs k \<longrightarrow> failing h xs k) \<longrightarrow>
             f \<le> r \<and> r \<le> s \<and>
             (r < s \<longrightarrow> failing h xs r \<and>
                (\<forall>k. f \<le> k \<and> k < s \<and> req h xs k \<longrightarrow> ftn h xs r \<le> ftn h xs k) \<and>
                (\<forall>k. f \<le> k \<and> k < r \<and> req h xs k \<longrightarrow> ftn h xs r < ftn h xs k) \<and>
                (s < length xs \<longrightarrow> ftn h xs r \<le> stn h xs s)) \<and>
             (r = s \<longrightarrow> s < length xs \<and>
                (\<forall>k. f \<le> k \<and> k < s \<and> req h xs k \<longrightarrow> stn h xs s < ftn h xs k)))))"
proof -
  let ?R = "\<lambda>t. can_request_state (h t)"
  let ?Q = "\<lambda>t. can_request_state (h t) \<and> m_failed_counter (h t) = 0"
  define first where "first = find_if ?R xs i"
  have first_le: "first \<le> length xs" unfolding first_def by (rule find_if_le)
  have first_none: "\<not> req h xs k" if "i \<le> k" "k < first" for k
    using find_if_first [of i k ?R xs] that unfolding first_def by simp
  show ?thesis
  proof (cases "first = length xs")
    case True
    then have "r = length xs" using r by (simp add: find_next_to_request_def first_def)
    then show ?thesis using first_none True by auto
  next
    case False
    then have lt: "first < length xs" using first_le by simp
    then have rq: "req h xs first" unfolding first_def by (rule find_if_holds)
    have "i \<le> length xs"
    proof (rule ccontr)
      assume "\<not> i \<le> length xs"
      then have "find_if ?R xs i = length xs" by (subst find_if.simps) simp
      then show False using False first_def by simp
    qed
    then have ge: "i \<le> first" unfolding first_def by (rule find_if_ge)
    have uniq: "f = first"
      if "i \<le> f" "f < length xs" "req h xs f" "\<forall>k. i \<le> k \<and> k < f \<longrightarrow> \<not> req h xs k" for f
      using that first_none [of f] rq ge by (metis linorder_neqE_nat)
    have r_lt: "r < length xs \<and> i \<le> r \<and> req h xs r \<and>
          (\<not> failing h xs first \<longrightarrow> r = first) \<and>
          (failing h xs first \<longrightarrow>
          (\<forall>s. first < s \<and> s \<le> length xs \<and> (s < length xs \<longrightarrow> req h xs s \<and> \<not> failing h xs s) \<and>
               (\<forall>k. first \<le> k \<and> k < s \<and> req h xs k \<longrightarrow> failing h xs k) \<longrightarrow>
             first \<le> r \<and> r \<le> s \<and>
             (r < s \<longrightarrow> failing h xs r \<and>
                (\<forall>k. first \<le> k \<and> k < s \<and> req h xs k \<longrightarrow> ftn h xs r \<le> ftn h xs k) \<and>
                (\<forall>k. first \<le> k \<and> k < r \<and> req h xs k \<longrightarrow> ftn h xs r < ftn h xs k) \<and>
                (s < length xs \<longrightarrow> ftn h xs r \<le> stn h xs s)) \<and>
             (r = s \<longrightarrow> s < length xs \<and>
                (\<forall>k. first \<le> k \<and> k < s \<and> req h xs k \<longrightarrow> stn h xs s < ftn h xs k))))"
    proof (cases "failing h xs first")
      case nf: False
      then have "r = first" using r False by (simp add: find_next_to_request_def first_def)
      then show ?thesis using lt ge rq nf by simp
    next
      case fl: True
      then have rl: "find_next_loop h xs first first = r"
        using r False by (simp add: find_next_to_request_def first_def Let_def)
      note L = find_next_loop_spec [OF rl order_refl lt]
      have stop: "stop_at h xs (Suc first) = s"
        if "first < s" "s \<le> length xs" "s < length xs \<longrightarrow> req h xs s \<and> \<not> failing h xs s"
           "\<forall>k. first \<le> k \<and> k < s \<and> req h xs k \<longrightarrow> failing h xs k" for s
        using that by (intro find_if_eqI) auto
      have k: "k = first \<or> first < k" if "first \<le> k" for k using that by auto
      have base: "r < length xs \<and> i \<le> r \<and> req h xs r"
        using L lt ge rq by auto
      have main: "first \<le> r \<and> r \<le> s \<and>
             (r < s \<longrightarrow> failing h xs r \<and>
                (\<forall>k. first \<le> k \<and> k < s \<and> req h xs k \<longrightarrow> ftn h xs r \<le> ftn h xs k) \<and>
                (\<forall>k. first \<le> k \<and> k < r \<and> req h xs k \<longrightarrow> ftn h xs r < ftn h xs k) \<and>
                (s < length xs \<longrightarrow> ftn h xs r \<le> stn h xs s)) \<and>
             (r = s \<longrightarrow> s < length xs \<and>
                (\<forall>k. first \<le> k \<and> k < s \<and> req h xs k \<longrightarrow> stn h xs s < ftn h xs k))"
        if s: "first < s" "s \<le> length xs" "s < length xs \<longrightarrow> req h xs s \<and> \<not> failing h xs s"
           "\<forall>k. first \<le> k \<and> k < s \<and> req h xs k \<longrightarrow> failing h xs k" for s
      proof -
        note L' = L [unfolded stop [OF s]]
        show ?thesis
          apply (intro conjI impI allI)
          subgoal using L' by auto
          subgoal using L' s by auto
          subgoal using L' fl by auto
          subgoal for k using L' k [of k] by (cases "r = first") auto
          subgoal for k using L' k [of k] by auto
          subgoal using L' by auto
          subgoal using L' by auto
          subgoal for k using L' k [of k] by auto
          done
      qed
      show ?thesis using base fl main by blast
    qed
    have "r \<noteq> length xs" using r_lt by simp
    moreover have "\<not> (\<forall>k. i \<le> k \<and> k < length xs \<longrightarrow> \<not> req h xs k)"
      using lt ge rq by blast
    moreover have "\<forall>f. i \<le> f \<and> f < length xs \<and> req h xs f \<and> (\<forall>k. i \<le> k \<and> k < f \<longrightarrow> \<not> req h xs k) \<longrightarrow>
       (\<not> failing h xs f \<longrightarrow> r = f) \<and>
       (failing h xs f \<longrightarrow>
          (\<forall>s. f < s \<and> s \<le> length xs \<and> (s < length xs \<longrightarrow> req h xs s \<and> \<not> failing h xs s) \<and>
               (\<forall>k. f \<le> k \<and> k < s \<and> req h xs k \<longrightarrow> failing h xs k) \<longrightarrow>
             f \<le> r \<and> r \<le> s \<and>
             (r < s \<longrightarrow> failing h xs r \<and>
                (\<forall>k. f \<le> k \<and> k < s \<and> req h xs k \<longrightarrow> ftn h xs r \<le> ftn h xs k) \<and>
                (\<forall>k. f \<le> k \<and> k < r \<and> req h xs k \<longrightarrow> ftn h xs r < ftn h xs k) \<and>
                (s < length xs \<longrightarrow> ftn h xs r \<le> stn h xs s)) \<and>
             (r = s \<longrightarrow> s < length xs \<and>
                (\<forall>k. f \<le> k \<and> k < s \<and> req h xs k \<longrightarrow> stn h xs s < ftn h xs k))))"
    proof (intro allI, rule impI, elim conjE)
      fix f
      assume "i \<le> f" "f < length xs" "req h xs f" "\<forall>k. i \<le> k \<and> k < f \<longrightarrow> \<not> req h xs k"
      then have f: "f = first" by (rule uniq)
      show "(\<not> failing h xs f \<longrightarrow> r = f) \<and>
       (failing h xs f \<longrightarrow>
          (\<forall>s. f < s \<and> s \<le> length xs \<and> (s < length xs \<longrightarrow> req h xs s \<and> \<not> failing h xs s) \<and>
               (\<forall>k. f \<le> k \<and> k < s \<and> req h xs k \<longrightarrow> failing h xs k) \<longrightarrow>
             f \<le> r \<and> r \<le> s \<and>
             (r < s \<longrightarrow> failing h xs r \<and>
                (\<forall>k. f \<le> k \<and> k < s \<and> req h xs k \<longrightarrow> ftn h xs r \<le> ftn h xs k) \<and>
                (\<forall>k. f \<le> k \<and> k < r \<and> req h xs k \<longrightarrow> ftn h xs r < ftn h xs k) \<and>
                (s < length xs \<longrightarrow> ftn h xs r \<le> stn h xs s)) \<and>
             (r = s \<longrightarrow> s < length xs \<and>
                (\<forall>k. f \<le> k \<and> k < s \<and> req h xs k \<longrightarrow> stn h xs s < ftn h xs k))))"
        unfolding f using r_lt by (intro conjI) (elim conjE, assumption)+
    qed
    ultimately show ?thesis using r_lt by simp
  qed
qed

theorem find_next_to_request_spec_witness:
  "find_next_to_request heap_mixed [1, 2, 3, 4, 5] 0 = 1 \<and>
   failing heap_mixed [1, 2, 3, 4, 5] 1 \<and>
   ftn heap_mixed [1, 2, 3, 4, 5] 1 \<le> ftn heap_mixed [1, 2, 3, 4, 5] 0 \<and>
   ftn heap_mixed [1, 2, 3, 4, 5] 1 \<le> stn heap_mixed [1, 2, 3, 4, 5] 3"
proof -
  let ?h = heap_mixed and ?xs = "[1, 2, 3, 4, 5] :: tracker_ptr list"
  have r: "find_next_to_request ?h ?xs 0 = 1"
    by (simp add: find_next_to_request_def find_if.simps find_next_loop.simps
        heap_mixed_def tracker0_def Let_def)
  note T = find_next_to_request_spec [of "1::nat" ?h ?xs 0, OF r [symmetric]]
  have first: "0 \<le> (0::nat) \<and> 0 < length ?xs \<and> req ?h ?xs 0 \<and>
      (\<forall>k. 0 \<le> k \<and> k < 0 \<longrightarrow> \<not> req ?h ?xs k)"
    by (simp add: heap_mixed_def tracker0_def)
  have fl: "failing ?h ?xs 0"
    by (simp add: heap_mixed_def tracker0_def)
  have k3: "k = 0 \<or> k = 1 \<or> k = 2" if "k < 3" for k :: nat
    using that by auto
  have stop: "0 < (3::nat) \<and> 3 \<le> length ?xs \<and>
      (3 < length ?xs \<longrightarrow> req ?h ?xs 3 \<and> \<not> failing ?h ?xs 3) \<and>
      (\<forall>k. 0 \<le> k \<and> k < 3 \<and> req ?h ?xs k \<longrightarrow> failing ?h ?xs k)"
  proof (intro conjI allI impI)
    fix k :: nat
    assume a: "0 \<le> k \<and> k < 3 \<and> req ?h ?xs k"
    then have "k = 0 \<or> k = 1 \<or> k = 2" using k3 by blast
    then show "failing ?h ?xs k" using a
      by (auto simp add: heap_mixed_def tracker0_def)
  qed (simp_all add: heap_mixed_def tracker0_def)
  note S = T [THEN conjunct2, THEN conjunct2, THEN conjunct2, THEN spec, of 0, THEN mp, OF first,
      THEN conjunct2, THEN mp, OF fl, THEN spec, of 3, THEN mp, OF stop]
  have lt: "(1::nat) < 3" by simp
  note C = S [THEN conjunct2, THEN conjunct2, THEN conjunct1, THEN mp, OF lt]
  have c1: "failing ?h ?xs 1" by (rule C [THEN conjunct1])
  have k0: "0 \<le> (0::nat) \<and> (0::nat) < 3 \<and> req ?h ?xs 0"
    by (simp add: heap_mixed_def tracker0_def)
  have c2: "ftn ?h ?xs 1 \<le> ftn ?h ?xs 0"
    by (rule C [THEN conjunct2, THEN conjunct1, THEN spec, of 0, THEN mp, OF k0])
  have l3: "3 < length ?xs" by simp
  have c3: "ftn ?h ?xs 1 \<le> stn ?h ?xs 3"
    by (rule C [THEN conjunct2, THEN conjunct2, THEN conjunct2, THEN mp, OF l3])
  show ?thesis using r c1 c2 c3 by (intro conjI)
qed

subsection \<open>\<open>cycle_group\<close>\<close>

text \<open>
  The loop of \<open>cycle_group\<close> carries the tracker at \<open>itr\<close> to the right, past the
  trackers of group \<open>g\<close> that follow it.
\<close>

lemma iter_swap_adjacent:
  "iter_swap (pre @ a # b # rest) (Suc (length pre)) (length pre) = pre @ b # a # rest"
  by (simp add: iter_swap_def list_update_append nth_append)

lemma cycle_loop_bubble:
  "cycle_loop h g (pre @ a # rest) (length pre) (length pre) =
     pre @ takeWhile (\<lambda>t. tracker_group (h t) = g) rest @ a #
       dropWhile (\<lambda>t. tracker_group (h t) = g) rest"
proof (induction rest arbitrary: pre)
  case Nil
  show ?case by (subst cycle_loop.simps) simp
next
  case (Cons b rest)
  show ?case
  proof (cases "tracker_group (h b) = g")
    case True
    have "cycle_loop h g (pre @ a # b # rest) (length pre) (length pre) =
          cycle_loop h g ((pre @ [b]) @ a # rest) (length (pre @ [b])) (length (pre @ [b]))"
      using True by (subst cycle_loop.simps) (simp add: iter_swap_adjacent nth_append)
    also have "\<dots> = (pre @ [b]) @ takeWhile (\<lambda>t. tracker_group (h t) = g) rest @ a #
       dropWhile (\<lambda>t. tracker_group (h t) = g) rest"
      by (rule Cons.IH)
    finally show ?thesis using True by simp
  next
    case False
    then show ?thesis by (subst cycle_loop.simps) (simp add: nth_append)
  qed
qed

lemma begin_group_split:
  assumes "\<forall>t\<in>set pre. tracker_group (h t) < g"
    and "post = [] \<or> g \<le> tracker_group (h (hd post))"
  shows "begin_group h (pre @ post) g = length pre"
  unfolding begin_group_def
proof (rule find_if_eqI)
  show "length pre < length (pre @ post) \<Longrightarrow> g \<le> tracker_group (h ((pre @ post) ! length pre))"
    using assms(2) by (cases post) (auto simp: nth_append)
  show "\<not> g \<le> tracker_group (h ((pre @ post) ! k))" if "k < length pre" for k
  proof -
    have "pre ! k \<in> set pre" using that by simp
    then have "tracker_group (h (pre ! k)) < g" using assms(1) by blast
    then show ?thesis using that by (simp add: nth_append)
  qed
qed simp_all

lemma cycle_group_segment:
  assumes pre: "\<forall>t\<in>set pre. tracker_group (heap s t) < g"
    and seg: "seg \<noteq> []" "\<forall>t\<in>set seg. tracker_group (heap s t) = g"
    and post: "post = [] \<or> tracker_group (heap s (hd post)) \<noteq> g"
    and xs: "trackers s = pre @ seg @ post"
  shows "cycle_group g s = s\<lparr>trackers := pre @ rotate1 seg @ post\<rparr>"
proof -
  obtain a seg' where sg: "seg = a # seg'" using seg(1) by (cases seg) auto
  have bg: "begin_group (heap s) (trackers s) g = length pre"
    unfolding xs using pre seg sg by (intro begin_group_split) auto
  have tw: "takeWhile (\<lambda>t. tracker_group (heap s t) = g) (seg' @ post) = seg'"
    using seg(2) post sg by (cases post) (auto simp: takeWhile_tail)
  have dw: "dropWhile (\<lambda>t. tracker_group (heap s t) = g) (seg' @ post) = post"
    using seg(2) post sg by (cases post) (auto simp: dropWhile_append2)
  have "cycle_loop (heap s) g (pre @ a # (seg' @ post)) (length pre) (length pre) =
        pre @ seg' @ a # post"
    unfolding cycle_loop_bubble tw dw by simp
  then show ?thesis
    unfolding cycle_group_def Let_def bg using seg(2) by (simp add: xs sg nth_append)
qed


lemma sorted_groups_split:
  "sorted (map f xs) \<Longrightarrow>
   filter (\<lambda>x. f x < g) xs @ filter (\<lambda>x. f x = g) xs @ filter (\<lambda>x. g < f x) xs = xs"
proof (induction xs)
  case Nil
  show ?case by simp
next
  case (Cons x xs)
  then have le: "\<forall>y\<in>set xs. f x \<le> f y" and IH: "filter (\<lambda>x. f x < g) xs @ filter (\<lambda>x. f x = g) xs @ filter (\<lambda>x. g < f x) xs = xs"
    by auto
  consider "f x < g" | "f x = g" | "g < f x" by (rule linorder_cases)
  then show ?case
  proof cases
    case 1
    then have "f x \<noteq> g" "\<not> g < f x" by auto
    then show ?thesis using 1 IH by simp
  next
    case 2
    then have "filter (\<lambda>x. f x < g) xs = []" using le by (auto simp: filter_empty_conv)
    then show ?thesis using 2 IH by simp
  next
    case 3
    then have "filter (\<lambda>x. f x < g) xs = []" "filter (\<lambda>x. f x = g) xs = []"
      using le by (auto simp: filter_empty_conv)
    moreover have "\<not> f x < g" "f x \<noteq> g" using 3 by auto
    ultimately show ?thesis using 3 IH by simp
  qed
qed




subsection \<open>Order by group\<close>

text \<open>
  \<open>insert\<close> puts the new group between the smaller and the larger ones, provided
  that \<^verbatim>\<open>group + 1\<close> does not wrap around; \<open>promote\<close>, \<open>cycle_group\<close> and
  \<open>randomize_group_entries\<close> move trackers within one group and leave the list of
  groups as it is.
\<close>

lemma sorted_insert_at:
  fixes gs :: "'a::linorder list"
  assumes "sorted gs"
    and before: "\<And>k. k < n \<Longrightarrow> k < length gs \<Longrightarrow> gs ! k \<le> g"
    and after: "\<And>k. n \<le> k \<Longrightarrow> k < length gs \<Longrightarrow> g \<le> gs ! k"
  shows "sorted (take n gs @ g # drop n gs)"
proof -
  have 1: "x \<le> g" if "x \<in> set (take n gs)" for x
  proof -
    from that obtain k where "k < length (take n gs)" "take n gs ! k = x"
      by (auto simp: in_set_conv_nth)
    then show ?thesis using before [of k] by simp
  qed
  have 2: "g \<le> y" if "y \<in> set (drop n gs)" for y
  proof -
    from that obtain k where "k < length (drop n gs)" "drop n gs ! k = y"
      by (auto simp: in_set_conv_nth)
    then show ?thesis using after [of "n + k"] by simp
  qed
  have 3: "x \<le> y" if "x \<in> set (take n gs)" "y \<in> set (drop n gs)" for x y
    using 1 [OF that(1)] 2 [OF that(2)] by (rule order_trans)
  have "sorted (take n gs)" "sorted (drop n gs)"
    using assms(1) by (simp_all add: sorted_wrt_take sorted_wrt_drop)
  then show ?thesis using 1 2 3 by (auto simp: sorted_append)
qed

lemma insert_tracker_groups:
  assumes "t \<notin> set (trackers s)"
  shows "groups (fst (insert_tracker g t s)) =
     take (end_group ((heap s)(t := (heap s t)\<lparr>tracker_group := g\<rparr>)) (trackers s) g) (groups s) @ g #
     drop (end_group ((heap s)(t := (heap s t)\<lparr>tracker_group := g\<rparr>)) (trackers s) g) (groups s)"
proof -
  let ?h = "(heap s)(t := (heap s t)\<lparr>tracker_group := g\<rparr>)"
  let ?f = "\<lambda>q. tracker_group (?h q)"
  let ?itr = "end_group ?h (trackers s) g"
  have m: "map ?f (trackers s) = groups s"
    unfolding groups_def using assms by (intro map_cong) auto
  have "groups (fst (insert_tracker g t s)) = map ?f (take ?itr (trackers s) @ t # drop ?itr (trackers s))"
    by (simp add: insert_tracker_def Let_def groups_def)
  also have "\<dots> = take ?itr (map ?f (trackers s)) @ g # drop ?itr (map ?f (trackers s))"
    by (simp add: take_map drop_map)
  finally show ?thesis unfolding m .
qed

lemma insert_tracker_sorted:
  assumes "sorted (groups s)" "t \<notin> set (trackers s)" "g + 1 \<noteq> 0"
  shows "sorted (groups (fst (insert_tracker g t s)))"
proof -
  let ?h = "(heap s)(t := (heap s t)\<lparr>tracker_group := g\<rparr>)"
  let ?P = "\<lambda>q. g + 1 \<le> tracker_group (?h q)"
  let ?itr = "end_group ?h (trackers s) g"
  have max: "g \<noteq> - 1" using assms(3) by auto
  have same: "tracker_group (?h (trackers s ! k)) = groups s ! k" if "k < length (trackers s)" for k
    using that assms(2) nth_mem [OF that] by (auto simp: groups_def)
  have itr: "?itr = find_if ?P (trackers s) 0"
    by (simp add: end_group_def begin_group_def)
  have before: "groups s ! k \<le> g" if "k < ?itr" "k < length (groups s)" for k
  proof -
    have "\<not> ?P (trackers s ! k)"
      using that(1) find_if_first [of 0 k ?P "trackers s"] unfolding itr by simp
    then have "\<not> g + 1 \<le> groups s ! k" using same [of k] that(2) by (simp add: groups_def)
    then show ?thesis by (auto simp: inc_less_eq_iff not_less)
  qed
  have after: "g \<le> groups s ! k" if "?itr \<le> k" "k < length (groups s)" for k
  proof -
    have lt: "?itr < length (trackers s)" using that by (simp add: groups_def)
    then have "?P (trackers s ! ?itr)" unfolding itr by (rule find_if_holds)
    then have "g + 1 \<le> groups s ! ?itr" using same [OF lt] by simp
    then have "g \<le> groups s ! ?itr" using max by (simp add: inc_less_eq_iff)
    also have "\<dots> \<le> groups s ! k" using assms(1) that by (intro sorted_nth_mono)
    finally show ?thesis .
  qed
  show ?thesis
    unfolding insert_tracker_groups [OF assms(2)]
    using assms(1) before after by (rule sorted_insert_at)
qed

lemma promote_groups:
  assumes "sorted (groups s)" "itr < length (trackers s)" "promote itr s = Inr (s', first)"
  shows "groups s' = groups s"
proof -
  let ?g = "tracker_group (heap s (trackers s ! itr))"
  let ?P = "\<lambda>t. ?g \<le> tracker_group (heap s t)"
  let ?first = "begin_group (heap s) (trackers s) ?g"
  have f: "?first = find_if ?P (trackers s) 0" by (simp add: begin_group_def)
  have le: "?first \<le> itr"
  proof (rule ccontr)
    assume "\<not> ?first \<le> itr"
    then have "\<not> ?P (trackers s ! itr)"
      using find_if_first [of 0 itr ?P "trackers s"] unfolding f by simp
    then show False by simp
  qed
  then have lt: "?first < length (trackers s)" using assms(2) by simp
  then have "?P (trackers s ! ?first)" unfolding f by (rule find_if_holds)
  moreover have "groups s ! ?first \<le> groups s ! itr"
    using assms(1,2) le by (intro sorted_nth_mono) (simp_all add: groups_def)
  ultimately have eq: "tracker_group (heap s (trackers s ! ?first)) = ?g"
    using lt assms(2) by (simp add: groups_def)
  have s': "s' = s\<lparr>trackers := iter_swap (trackers s) ?first itr\<rparr>"
    using assms(3) lt by (auto simp: promote_def Let_def split: if_splits)
  have "map (\<lambda>t. tracker_group (heap s t)) (iter_swap (trackers s) ?first itr) =
        (map (\<lambda>t. tracker_group (heap s t)) (trackers s))[?first := ?g, itr := ?g]"
    using eq by (simp add: iter_swap_def map_update)
  also have "\<dots> = (map (\<lambda>t. tracker_group (heap s t)) (trackers s))[itr := ?g]"
    using eq lt list_update_id [of "map (\<lambda>t. tracker_group (heap s t)) (trackers s)" ?first]
    by simp
  also have "\<dots> = map (\<lambda>t. tracker_group (heap s t)) (trackers s)"
    using assms(2) list_update_id [of "map (\<lambda>t. tracker_group (heap s t)) (trackers s)" itr]
    by simp
  finally show ?thesis by (simp add: s' groups_def)
qed

lemma map_const_on:
  assumes "\<forall>x\<in>set xs. f x = c"
  shows "map f xs = replicate (length xs) c"
  using assms by (induction xs) auto

lemma cycle_group_groups:
  assumes "sorted (groups s)"
  shows "groups (cycle_group g s) = groups s"
proof (cases "filter (\<lambda>t. tracker_group (heap s t) = g) (trackers s) = []")
  case True
  then have none: "\<forall>t\<in>set (trackers s). tracker_group (heap s t) \<noteq> g"
    by (simp add: filter_empty_conv)
  have "cycle_group g s = s"
    using none nth_mem [of "begin_group (heap s) (trackers s) g" "trackers s"]
      find_if_le [of "\<lambda>t. g \<le> tracker_group (heap s t)" "trackers s" 0]
    by (auto simp: cycle_group_def Let_def begin_group_def)
  then show ?thesis by simp
next
  case False
  let ?f = "\<lambda>t. tracker_group (heap s t)"
  let ?pre = "filter (\<lambda>t. ?f t < g) (trackers s)"
  let ?seg = "filter (\<lambda>t. ?f t = g) (trackers s)"
  let ?post = "filter (\<lambda>t. g < ?f t) (trackers s)"
  have xs: "trackers s = ?pre @ ?seg @ ?post"
    using sorted_groups_split [of ?f "trackers s" g] assms(1) by (simp add: groups_def)
  have post: "?post = [] \<or> tracker_group (heap s (hd ?post)) \<noteq> g"
  proof (cases "?post = []")
    case False
    then have "hd ?post \<in> set ?post" by (rule hd_in_set)
    then show ?thesis by auto
  qed simp
  have c: "cycle_group g s = s\<lparr>trackers := ?pre @ rotate1 ?seg @ ?post\<rparr>"
    using False post xs by (intro cycle_group_segment) auto
  have "map ?f (rotate1 ?seg) = replicate (length (rotate1 ?seg)) g"
    by (intro map_const_on) simp
  also have "\<dots> = map ?f ?seg"
    using map_const_on [of ?seg ?f g] by simp
  finally have "map ?f (?pre @ rotate1 ?seg @ ?post) = map ?f (?pre @ ?seg @ ?post)"
    by simp
  then show ?thesis unfolding c using xs by (simp add: groups_def)
qed

lemma randomize_loop_groups:
  assumes "randomize_loop h xs itr xs'" "sorted (map (\<lambda>t. tracker_group (h t)) xs)"
  shows "map (\<lambda>t. tracker_group (h t)) xs' = map (\<lambda>t. tracker_group (h t)) xs"
  using assms
proof (induction rule: randomize_loop.induct)
  case (randomize_end xs itr)
  show ?case by simp
next
  case (randomize_shuffle itr xs tmp shuffled xs')
  let ?f = "\<lambda>t. tracker_group (h t)"
  let ?g = "?f (xs ! itr)"
  let ?slice = "take (tmp - itr) (drop itr xs)"
  have tmp: "tmp = find_if (\<lambda>t. ?g + 1 \<le> ?f t) xs 0"
    using randomize_shuffle.hyps(2) by (simp add: end_group_def begin_group_def)
  have tmp_le: "tmp \<le> length xs" unfolding tmp by (rule find_if_le)
  have slice: "?f t = ?g" if "t \<in> set ?slice" for t
  proof -
    from that obtain k where k: "k < length ?slice" "?slice ! k = t"
      by (auto simp: in_set_conv_nth)
    then have kk: "itr + k < tmp" "t = xs ! (itr + k)" using tmp_le by auto
    have "\<not> ?g + 1 \<le> ?f (xs ! (itr + k))"
      using kk(1) find_if_first [of 0 "itr + k" "\<lambda>t. ?g + 1 \<le> ?f t" xs] unfolding tmp by simp
    then have "?f (xs ! (itr + k)) \<le> ?g" by (auto simp: inc_less_eq_iff not_less)
    moreover have "map ?f xs ! itr \<le> map ?f xs ! (itr + k)"
      using randomize_shuffle.prems kk(1) tmp_le by (intro sorted_nth_mono) simp_all
    ultimately show ?thesis using kk tmp_le randomize_shuffle.hyps(1) by simp
  qed
  have set_eq: "set shuffled = set ?slice" and len_eq: "length shuffled = length ?slice"
    using randomize_shuffle.hyps(4) by (auto dest: mset_eq_setD mset_eq_length)
  have "map ?f shuffled = replicate (length shuffled) ?g"
    using slice set_eq by (intro map_const_on) simp
  also have "\<dots> = map ?f ?slice"
    using map_const_on [of ?slice ?f ?g] slice len_eq by simp
  finally have sh: "map ?f shuffled = map ?f ?slice" .
  have whole: "take itr xs @ ?slice @ drop tmp xs = xs"
  proof -
    have "drop (tmp - itr) (drop itr xs) = drop tmp xs"
      using randomize_shuffle.hyps(3) by simp
    then have "?slice @ drop tmp xs = drop itr xs"
      using append_take_drop_id [of "tmp - itr" "drop itr xs"] by simp
    then show ?thesis by simp
  qed
  have "map ?f (take itr xs @ shuffled @ drop tmp xs) = map ?f (take itr xs @ ?slice @ drop tmp xs)"
    using sh by simp
  then have eq: "map ?f (take itr xs @ shuffled @ drop tmp xs) = map ?f xs"
    using whole by simp
  then have "map ?f xs' = map ?f (take itr xs @ shuffled @ drop tmp xs)"
    using randomize_shuffle.IH randomize_shuffle.prems by simp
  then show ?case using eq by simp
qed

lemma step_sorted:
  assumes "step s op s'" "no_wrap op" "sorted (groups s)"
  shows "sorted (groups s')"
  using assms
proof (induction rule: step.induct)
  case (step_insert t s g)
  have "g + 1 \<noteq> 0" using step_insert.prems(1) by simp
  with step_insert.prems(2) step_insert.hyps show ?case by (rule insert_tracker_sorted)
next
  case (step_promote itr s s' first)
  then show ?case using promote_groups [of s itr s' first] by simp
next
  case (step_cycle_group s g)
  then show ?case by (simp add: cycle_group_groups)
next
  case (step_randomize s s')
  then obtain xs' where "randomize_loop (heap s) (trackers s) 0 xs'" "s' = s\<lparr>trackers := xs'\<rparr>"
    by (auto simp: randomize_group_entries_def)
  then show ?case
    using randomize_loop_groups [of "heap s" "trackers s" 0 xs'] step_randomize.prems
    by (simp add: groups_def)
qed

lemma run_sorted:
  assumes "run s ops s'" "list_all no_wrap ops" "sorted (groups s)"
  shows "sorted (groups s')"
  using assms
proof (induction rule: run.induct)
  case (run_Nil s)
  then show ?case by simp
next
  case (run_Cons s op s' ops s'')
  have "no_wrap op" "list_all no_wrap ops" using run_Cons.prems(1) by simp_all
  moreover have "sorted (groups s')"
    using run_Cons.hyps(1) \<open>no_wrap op\<close> run_Cons.prems(2) by (rule step_sorted)
  ultimately show ?case using run_Cons.IH by simp
qed

text \<open>
  As long as no tracker is inserted into the largest group, a list that is ordered by
  group (as the empty list of a new \<open>TrackerList\<close> is) stays ordered by group under every
  sequence of \<open>insert\<close>, \<open>promote\<close>, \<open>cycle_group\<close> and \<open>randomize_group_entries\<close>.
\<close>

lemma tracker_list_grouped_no_wrap:
  assumes "sorted (groups s)" "run s ops s'" "list_all no_wrap ops"
    and "i < j" "j < length (trackers s')"
  shows "tracker_group (heap s' (trackers s' ! i)) \<le> tracker_group (heap s' (trackers s' ! j))"
proof -
  have "sorted (groups s')" using assms(2,3,1) by (rule run_sorted)
  then have "groups s' ! i \<le> groups s' ! j"
    using assms(4,5) by (intro sorted_nth_mono) (simp_all add: groups_def)
  then show ?thesis using assms(4,5) by (simp add: groups_def)
qed

lemma tracker_list_grouped_no_wrap_example:
  "sorted (groups tl_empty) \<and>
   run tl_empty
     [Insert 1 10, Insert 0 11, Insert 1 12, Promote 2, Cycle_group 1, Randomize_group_entries]
     (tl_run [11, 12, 10]) \<and>
   tracker_group (heap (tl_run [11, 12, 10]) (trackers (tl_run [11, 12, 10]) ! 0))
     \<le> tracker_group (heap (tl_run [11, 12, 10]) (trackers (tl_run [11, 12, 10]) ! 2))"
proof -
  let ?h1 = "(\<lambda>t. tracker0)(10 := tracker0\<lparr>tracker_group := 1\<rparr>)"
  let ?h2 = "?h1(11 := tracker0\<lparr>tracker_group := 0\<rparr>)"
  let ?s1 = "\<lparr>trackers = [10], heap = ?h1, next_ptr = 0, m_slot_success = None\<rparr> :: nat tracker_list"
  let ?s2 = "\<lparr>trackers = [11, 10], heap = ?h2, next_ptr = 0, m_slot_success = None\<rparr> :: nat tracker_list"
  note ev = end_group_def begin_group_def find_if.simps Let_def word_le_nat_alt
  have s0: "sorted (groups tl_empty)"
    by (simp add: groups_def tl_empty_def)
  have st1: "step tl_empty (Insert 1 10) ?s1"
    using step_insert [of 10 tl_empty 1]
    by (simp add: insert_tracker_def tl_empty_def ev)
  have st2: "step ?s1 (Insert 0 11) ?s2"
    using step_insert [of 11 ?s1 0]
    by (simp add: insert_tracker_def ev)
  have st3: "step ?s2 (Insert 1 12) (tl_run [11, 10, 12])"
    using step_insert [of 12 ?s2 1]
    by (simp add: insert_tracker_def tl_run_def heap_run_def ev)
  have st4: "step (tl_run [11, 10, 12]) (Promote 2) (tl_run [11, 12, 10])"
  proof (rule step_promote [where first = 1])
    show "2 < length (trackers (tl_run [11, 10, 12]))" by (simp add: tl_run_def)
    show "promote 2 (tl_run [11, 10, 12]) = Inr (tl_run [11, 12, 10], 1)"
      by (simp add: promote_def tl_run_def heap_run_def iter_swap_def ev)
  qed
  have "cycle_group 1 (tl_run [11, 12, 10]) = tl_run [11, 10, 12]"
    by (simp add: cycle_group_def cycle_loop.simps tl_run_def heap_run_def iter_swap_def ev)
  then have st5: "step (tl_run [11, 12, 10]) (Cycle_group 1) (tl_run [11, 10, 12])"
    using step_cycle_group [of "tl_run [11, 12, 10]" 1] by simp
  have l3: "randomize_loop heap_run [11, 12, 10] 3 [11, 12, 10]"
    by (rule randomize_end) simp
  have l2: "randomize_loop heap_run [11, 10, 12] 1 [11, 12, 10]"
  proof (rule randomize_shuffle [where tmp = 3 and shuffled = "[12, 10]"])
    show "3 = end_group heap_run [11, 10, 12] (tracker_group (heap_run ([11, 10, 12] ! 1)))"
      by (simp add: heap_run_def ev)
    show "mset [12, 10] = mset (take (3 - 1) (drop 1 [11, 10, 12 :: nat]))"
      by simp
    show "randomize_loop heap_run (take 1 [11, 10, 12] @ [12, 10] @ drop 3 [11, 10, 12]) 3 [11, 12, 10]"
      using l3 by simp
  qed simp_all
  have l1: "randomize_loop heap_run [11, 10, 12] 0 [11, 12, 10]"
  proof (rule randomize_shuffle [where tmp = 1 and shuffled = "[11]"])
    show "1 = end_group heap_run [11, 10, 12] (tracker_group (heap_run ([11, 10, 12] ! 0)))"
      by (simp add: heap_run_def tracker0_def ev)
    show "mset [11] = mset (take (1 - 0) (drop 0 [11, 10, 12 :: nat]))"
      by simp
    show "randomize_loop heap_run (take 0 [11, 10, 12] @ [11] @ drop 1 [11, 10, 12]) 1 [11, 12, 10]"
      using l2 by simp
  qed simp_all
  have "randomize_group_entries (tl_run [11, 10, 12]) (tl_run [11, 12, 10])"
    unfolding randomize_group_entries_def
    by (rule exI [of _ "[11, 12, 10]"]) (simp add: tl_run_def l1)
  then have st6: "step (tl_run [11, 10, 12]) Randomize_group_entries (tl_run [11, 12, 10])"
    by (rule step_randomize)
  have r: "run tl_empty
     [Insert 1 10, Insert 0 11, Insert 1 12, Promote 2, Cycle_group 1, Randomize_group_entries]
     (tl_run [11, 12, 10])"
    by (rule run_Cons [OF st1 run_Cons [OF st2 run_Cons [OF st3 run_Cons [OF st4
          run_Cons [OF st5 run_Cons [OF st6 run_Nil]]]]]])
  have nw: "list_all no_wrap
     [Insert 1 10, Insert 0 11, Insert 1 12, Promote 2, Cycle_group 1, Randomize_group_entries]"
    by simp
  have ij: "(0::nat) < 2" "2 < length (trackers (tl_run [11, 12, 10]))"
    by (simp_all add: tl_run_def)
  show ?thesis
    using s0 r tracker_list_grouped_no_wrap [OF s0 r nw ij] by (intro conjI)
qed

text \<open>
  C6. The list should stay ordered by group under every sequence of \<open>insert\<close>,
  \<open>promote\<close>, \<open>cycle_group\<close> and \<open>randomize_group_entries\<close>. An \<open>insert\<close> into the
  largest group breaks the order: \<^verbatim>\<open>end_group(4294967295)\<close> is \<^verbatim>\<open>begin_group(0)\<close>, the
  beginning of the list, so the new tracker is put in front of the trackers of all
  smaller groups. Here a tracker of group 0 is inserted into the empty list and then a
  tracker of group 4294967295: the list of groups becomes \<open>[4294967295, 0]\<close>, and the
  group at index 0 is greater than the group at index 1.
\<close>

theorem insert_largest_group_unordered:
  "sorted (groups tl_empty) \<and>
   run tl_empty [Insert 0 10, Insert 4294967295 11] tl_wrap \<and>
   trackers tl_wrap = [11, 10] \<and>
   groups tl_wrap = [4294967295, 0] \<and>
   \<not> sorted (groups tl_wrap) \<and>
   \<not> tracker_group (heap tl_wrap (trackers tl_wrap ! 0))
       \<le> tracker_group (heap tl_wrap (trackers tl_wrap ! 1))"
proof -
  let ?h1 = "(\<lambda>t. tracker0)(10 := tracker0\<lparr>tracker_group := 0\<rparr>)"
  let ?s1 = "\<lparr>trackers = [10], heap = ?h1, next_ptr = 0, m_slot_success = None\<rparr> :: nat tracker_list"
  note ev = end_group_def begin_group_def find_if.simps Let_def word_le_nat_alt
  have s0: "sorted (groups tl_empty)"
    by (simp add: groups_def tl_empty_def)
  have st1: "step tl_empty (Insert 0 10) ?s1"
    using step_insert [of 10 tl_empty 0]
    by (simp add: insert_tracker_def tl_empty_def ev)
  have st2: "step ?s1 (Insert 4294967295 11) tl_wrap"
    using step_insert [of 11 ?s1 4294967295]
    by (simp add: insert_tracker_def tl_wrap_def ev)
  have r: "run tl_empty [Insert 0 10, Insert 4294967295 11] tl_wrap"
    by (rule run_Cons [OF st1 run_Cons [OF st2 run_Nil]])
  have g: "groups tl_wrap = [4294967295, 0]"
    by (simp add: groups_def tl_wrap_def)
  have t: "trackers tl_wrap = [11, 10]"
    by (simp add: tl_wrap_def)
  have u: "\<not> sorted (groups tl_wrap)"
    unfolding g by (simp add: word_le_nat_alt)
  have v: "\<not> tracker_group (heap tl_wrap (trackers tl_wrap ! 0))
       \<le> tracker_group (heap tl_wrap (trackers tl_wrap ! 1))"
    by (simp add: tl_wrap_def word_le_nat_alt)
  show ?thesis using s0 r t g u v by (intro conjI)
qed

subsection \<open>\<open>receive_success\<close>\<close>

lemma distinct_remdups_adj_sorted:
  fixes xs :: "'a::linorder list"
  shows "sorted xs \<Longrightarrow> distinct (remdups_adj xs)"
proof (induction xs rule: remdups_adj.induct)
  case (3 x y xs)
  show ?case
  proof (cases "x = y")
    case True
    then show ?thesis using 3 by simp
  next
    case False
    have "x \<notin> set (y # xs)"
    proof
      assume "x \<in> set (y # xs)"
      then have "y \<le> x" using "3.prems" by auto
      moreover have "x \<le> y" using "3.prems" by simp
      ultimately show False using False by simp
    qed
    then show ?thesis using False 3 by simp
  qed
qed simp_all

lemma find_tracker_found:
  assumes "t \<in> set (trackers s)"
  shows "find_tracker t s < length (trackers s) \<and> trackers s ! find_tracker t s = t"
proof -
  let ?P = "\<lambda>q. q = t"
  have "find_if ?P (trackers s) 0 \<noteq> length (trackers s)"
  proof
    assume e: "find_if ?P (trackers s) 0 = length (trackers s)"
    from assms obtain k where k: "k < length (trackers s)" "trackers s ! k = t"
      by (auto simp: in_set_conv_nth)
    then have "\<not> ?P (trackers s ! k)"
      using find_if_first [of 0 k ?P "trackers s"] e by simp
    then show False using k by simp
  qed
  then have "find_if ?P (trackers s) 0 < length (trackers s)"
    using find_if_le [of ?P "trackers s" 0] by simp
  then show ?thesis
    using find_if_holds [of ?P "trackers s" 0] by (simp add: find_tracker_def)
qed

lemma begin_group_le:
  assumes "itr < length xs"
  shows "begin_group h xs (tracker_group (h (xs ! itr))) \<le> itr"
proof (rule ccontr)
  let ?P = "\<lambda>t. tracker_group (h (xs ! itr)) \<le> tracker_group (h t)"
  assume "\<not> begin_group h xs (tracker_group (h (xs ! itr))) \<le> itr"
  then have "\<not> ?P (xs ! itr)"
    using find_if_first [of 0 itr ?P xs] by (simp add: begin_group_def)
  then show False by simp
qed

lemma promote_valid:
  assumes "itr < length (trackers s)"
  shows "promote itr s =
     Inr (s\<lparr>trackers := iter_swap (trackers s)
                (begin_group (heap s) (trackers s) (tracker_group (heap s (trackers s ! itr)))) itr\<rparr>,
          begin_group (heap s) (trackers s) (tracker_group (heap s (trackers s ! itr))))"
  using begin_group_le [OF assms, of "heap s"] assms by (simp add: promote_def Let_def)

lemma begin_group_promoted:
  assumes "itr < length xs" "\<forall>q. tracker_group (h' q) = tracker_group (h q)"
  defines "first \<equiv> begin_group h xs (tracker_group (h (xs ! itr)))"
  shows "begin_group h' (iter_swap xs first itr) (tracker_group (h' (xs ! itr))) = first \<and>
         iter_swap xs first itr ! first = xs ! itr"
proof -
  let ?g = "tracker_group (h (xs ! itr))"
  have le: "first \<le> itr" unfolding first_def using assms(1) by (rule begin_group_le)
  then have lt: "first < length xs" using assms(1) by simp
  have at: "iter_swap xs first itr ! first = xs ! itr"
    using lt assms(1) by (simp add: iter_swap_def nth_list_update)
  have "find_if (\<lambda>t. ?g \<le> tracker_group (h' t)) (iter_swap xs first itr) 0 = first"
  proof (rule find_if_eqI)
    show "first \<le> length (iter_swap xs first itr)" using lt by (simp add: iter_swap_def)
    show "?g \<le> tracker_group (h' (iter_swap xs first itr ! first))"
      using at assms(2) by simp
    show "\<not> ?g \<le> tracker_group (h' (iter_swap xs first itr ! k))" if "k < first" for k
    proof -
      have "iter_swap xs first itr ! k = xs ! k"
        using that le by (simp add: iter_swap_def)
      moreover have "\<not> ?g \<le> tracker_group (h (xs ! k))"
        using find_if_first [of 0 k "\<lambda>t. ?g \<le> tracker_group (h t)" xs] that
        by (simp add: first_def begin_group_def)
      ultimately show ?thesis using assms(2) by simp
    qed
  qed simp
  then show ?thesis using at assms(2) by (simp add: begin_group_def)
qed

text \<open>
  C3. For a tracker that is in the list and not busy, \<open>receive_success(tracker, l)\<close>
  does not fail. It exchanges the tracker with the first tracker of its group, so that
  afterwards the tracker is the one at the beginning of its group. It sorts the address
  list and removes the duplicates, records the time in \<open>success_time_last\<close>, sets
  \<open>failed_counter\<close> to 0 and \<open>latest_sum_peers\<close> to the size of the de-duplicated
  list. The number of new peers that the success slot returns for the de-duplicated list
  is stored in \<open>latest_new_peers\<close> (with no slot set there is no such number, and
  \<open>latest_new_peers\<close> stays as it is).
\<close>

theorem receive_success_spec:
  fixes l :: "'a::linorder list" and s :: "'a tracker_list"
  assumes "t \<in> set (trackers s)" "\<not> is_busy (heap s t)"
  shows "\<exists>s' l'. receive_success now t l s = Inr (s', l') \<and>
     trackers s' = iter_swap (trackers s)
        (begin_group (heap s) (trackers s) (tracker_group (heap s t))) (find_tracker t s) \<and>
     (\<forall>q. tracker_group (heap s' q) = tracker_group (heap s q)) \<and>
     begin_group (heap s') (trackers s') (tracker_group (heap s' t)) < length (trackers s') \<and>
     trackers s' ! begin_group (heap s') (trackers s') (tracker_group (heap s' t)) = t \<and>
     l' = remdups_adj (sort l) \<and> sorted l' \<and> distinct l' \<and> set l' = set l \<and>
     m_success_time_last (heap s' t) = now \<and>
     m_failed_counter (heap s' t) = 0 \<and>
     m_latest_sum_peers (heap s' t) = length l' \<and>
     (case m_slot_success s of
        None \<Rightarrow> m_latest_new_peers (heap s' t) = m_latest_new_peers (heap s t)
      | Some slot \<Rightarrow> m_latest_new_peers (heap s' t) = slot t l')"
proof -
  let ?itr = "find_tracker t s"
  let ?first = "begin_group (heap s) (trackers s) (tracker_group (heap s t))"
  let ?ys = "iter_swap (trackers s) ?first ?itr"
  let ?l = "remdups_adj (sort l)"
  let ?t1 = "(heap s t)\<lparr>m_success_time_last := now,
                         m_success_counter := (m_success_counter (heap s t) + 1) mod 2 ^ 32,
                         m_failed_counter := 0, m_latest_sum_peers := length ?l\<rparr>"
  let ?t2 = "case m_slot_success s of None \<Rightarrow> ?t1
             | Some slot \<Rightarrow> ?t1\<lparr>m_latest_new_peers := slot t ?l\<rparr>"
  let ?s' = "s\<lparr>trackers := ?ys, heap := (heap s)(t := ?t2)\<rparr>"
  have itr: "?itr < length (trackers s)" "trackers s ! ?itr = t"
    using find_tracker_found [OF assms(1)] by simp_all
  have pr: "promote ?itr s = Inr (s\<lparr>trackers := ?ys\<rparr>, ?first)"
    using promote_valid [OF itr(1)] itr(2) by simp
  have rs: "receive_success now t l s = Inr (?s', ?l)"
    using itr(1) assms(2) pr
    by (cases "m_slot_success s") (simp_all add: receive_success_def Let_def)
  have grp: "\<forall>q. tracker_group (heap ?s' q) = tracker_group (heap s q)"
    by (cases "m_slot_success s") simp_all
  have bp: "begin_group (heap ?s') ?ys (tracker_group (heap ?s' t)) = ?first \<and> ?ys ! ?first = t"
    using begin_group_promoted [OF itr(1), of "heap ?s'" "heap s"] grp itr(2) by simp
  have fl: "?first < length ?ys"
    using begin_group_le [OF itr(1), of "heap s"] itr by (simp add: iter_swap_def)
  have lst: "sorted ?l \<and> distinct ?l \<and> set ?l = set l"
    by (simp add: distinct_remdups_adj_sorted)
  have fields: "m_success_time_last (heap ?s' t) = now \<and> m_failed_counter (heap ?s' t) = 0 \<and>
     m_latest_sum_peers (heap ?s' t) = length ?l \<and>
     (case m_slot_success s of
        None \<Rightarrow> m_latest_new_peers (heap ?s' t) = m_latest_new_peers (heap s t)
      | Some slot \<Rightarrow> m_latest_new_peers (heap ?s' t) = slot t ?l)"
    by (cases "m_slot_success s") simp_all
  have tr: "trackers ?s' = ?ys" by simp
  show ?thesis
    apply (rule exI [of _ ?s'], rule exI [of _ ?l])
    apply (intro conjI)
                apply (rule rs)
               apply (rule tr)
              apply (rule grp)
    subgoal using bp fl unfolding tr by simp
    subgoal using bp unfolding tr by simp
          apply (rule refl)
    using lst fields by simp_all
qed

theorem receive_success_spec_witness:
  "3 \<in> set (trackers tl_slot) \<and> \<not> is_busy (heap tl_slot 3) \<and>
   m_failed_counter (heap tl_slot 3) = 2 \<and>
   (\<exists>s' l'. receive_success 100 3 [5, 3, 5, 1, 3] tl_slot = Inr (s', l') \<and>
      trackers s' = [1, 3, 2, 4, 5] \<and> l' = [1, 3, 5] \<and>
      m_success_time_last (heap s' 3) = 100 \<and> m_failed_counter (heap s' 3) = 0 \<and>
      m_latest_sum_peers (heap s' 3) = 3 \<and> m_latest_new_peers (heap s' 3) = 2)"
proof -
  note ev = tl_slot_def tl_groups_def heap_groups_def tracker0_def
  have h1: "3 \<in> set (trackers tl_slot)" by (simp add: ev)
  have h2: "\<not> is_busy (heap tl_slot 3)" by (simp add: ev)
  have h3: "m_failed_counter (heap tl_slot 3) = 2" by (simp add: ev)
  have e1: "iter_swap (trackers tl_slot)
        (begin_group (heap tl_slot) (trackers tl_slot) (tracker_group (heap tl_slot 3)))
        (find_tracker 3 tl_slot) = [1, 3, 2, 4, 5]"
    by (simp add: iter_swap_def begin_group_def find_tracker_def find_if.simps ev)
  have e2: "remdups_adj (sort [5, 3, 5, 1, 3 :: nat]) = [1, 3, 5]"
    by simp
  have e3: "m_slot_success tl_slot = Some (\<lambda>t l. 2)" by (simp add: ev)
  from receive_success_spec [OF h1 h2, of 100 "[5, 3, 5, 1, 3]"]
  obtain s' l' where r: "receive_success 100 3 [5, 3, 5, 1, 3] tl_slot = Inr (s', l')"
    and p: "trackers s' = iter_swap (trackers tl_slot)
        (begin_group (heap tl_slot) (trackers tl_slot) (tracker_group (heap tl_slot 3)))
        (find_tracker 3 tl_slot)"
      "l' = remdups_adj (sort [5, 3, 5, 1, 3])"
      "m_success_time_last (heap s' 3) = 100" "m_failed_counter (heap s' 3) = 0"
      "m_latest_sum_peers (heap s' 3) = length l'"
      "(case m_slot_success tl_slot of
          None \<Rightarrow> m_latest_new_peers (heap s' 3) = m_latest_new_peers (heap tl_slot 3)
        | Some slot \<Rightarrow> m_latest_new_peers (heap s' 3) = slot 3 l')"
    by blast
  have "trackers s' = [1, 3, 2, 4, 5]" using p(1) e1 by simp
  moreover have "l' = [1, 3, 5]" using p(2) e2 by simp
  moreover have "m_latest_sum_peers (heap s' 3) = 3" using p(5) p(2) e2 by simp
  moreover have "m_latest_new_peers (heap s' 3) = 2" using p(6) e3 by simp
  ultimately show ?thesis using h1 h2 h3 r p(3,4) by blast
qed

subsection \<open>\<open>insert_url\<close>\<close>

text \<open>
  C5, as stated: a url of no supported protocol makes \<open>insert_url\<close> signal
  \<open>input_error\<close> whatever the \<open>extra_tracker\<close> flag is. This fails: without the
  flag the call returns normally (and inserts nothing).
\<close>

theorem insert_url_no_error_counterexample:
  "take 7 url_ftp \<noteq> ''http://'' \<and> take 8 url_ftp \<noteq> ''https://'' \<and>
   take 6 url_ftp \<noteq> ''udp://'' \<and> take 6 url_ftp \<noteq> ''dht://'' \<and>
   insert_url True 0 url_ftp False tl_empty = Inr tl_empty"
  by (simp add: insert_url_def url_ftp_def)

text \<open>
  C5, amended. For a url whose beginning is none of \<open>http://\<close>, \<open>https://\<close>, \<open>udp://\<close>,
  or \<open>dht://\<close> with the DHT tracker allowed, \<open>insert_url(group, url, extra_tracker)\<close>
  inserts no tracker; it throws \<open>input_error\<close> to its caller if \<open>extra_tracker\<close> is set,
  and returns normally, leaving the list as it is, if \<open>extra_tracker\<close> is not set.
\<close>

theorem insert_url_unsupported:
  assumes "take 7 url \<noteq> ''http://''" "take 8 url \<noteq> ''https://''" "take 6 url \<noteq> ''udp://''"
    and "take 6 url \<noteq> ''dht://'' \<or> \<not> dht_allowed"
  shows "(extra_tracker \<longrightarrow>
            insert_url dht_allowed g url extra_tracker s =
              Inl (input_error (''could find matching tracker protocol (url:'' @ url @ '')''))) \<and>
         (\<not> extra_tracker \<longrightarrow> insert_url dht_allowed g url extra_tracker s = Inr s)"
  using assms by (auto simp: insert_url_def)

theorem insert_url_unsupported_witness:
  "insert_url True 0 url_ftp True tl_empty =
     Inl (input_error (''could find matching tracker protocol (url:'' @ url_ftp @ '')'')) \<and>
   insert_url True 0 url_ftp False tl_empty = Inr tl_empty \<and>
   insert_url False 0 url_dht True tl_empty =
     Inl (input_error (''could find matching tracker protocol (url:'' @ url_dht @ '')'')) \<and>
   trackers (insert_worker 0 TrackerDht url_dht True tl_empty) = [0] \<and>
   insert_url True 0 url_dht True tl_empty = Inr (insert_worker 0 TrackerDht url_dht True tl_empty)"
proof -
  have f: "take 7 url_ftp \<noteq> ''http://''" "take 8 url_ftp \<noteq> ''https://''"
    "take 6 url_ftp \<noteq> ''udp://''" "take 6 url_ftp \<noteq> ''dht://'' \<or> \<not> True"
    by (simp_all add: url_ftp_def)
  have d: "take 7 url_dht \<noteq> ''http://''" "take 8 url_dht \<noteq> ''https://''"
    "take 6 url_dht \<noteq> ''udp://''" "take 6 url_dht \<noteq> ''dht://'' \<or> \<not> False"
    by (simp_all add: url_dht_def)
  have a: "insert_url True 0 url_ftp True tl_empty =
     Inl (input_error (''could find matching tracker protocol (url:'' @ url_ftp @ '')''))"
    using insert_url_unsupported [OF f, of True 0 tl_empty] by simp
  have b: "insert_url True 0 url_ftp False tl_empty = Inr tl_empty"
    using insert_url_unsupported [OF f, of False 0 tl_empty] by simp
  have c: "insert_url False 0 url_dht True tl_empty =
     Inl (input_error (''could find matching tracker protocol (url:'' @ url_dht @ '')''))"
    using insert_url_unsupported [OF d, of True 0 tl_empty] by simp
  have e: "trackers (insert_worker 0 TrackerDht url_dht True tl_empty) = [0]"
    unfolding insert_worker_def new_tracker_def tl_empty_def Let_def prod.case
    by (simp add: insert_tracker_def end_group_def begin_group_def find_if.simps Let_def)
  have g: "insert_url True 0 url_dht True tl_empty = Inr (insert_worker 0 TrackerDht url_dht True tl_empty)"
    by (simp add: insert_url_def url_dht_def)
  show ?thesis using a b c e g by (intro conjI)
qed

end
